theory Spec2Isabelle
  imports Complex_Main
begin

section \<open>Data model\<close>

text \<open>
  The clustering engine of \<^verbatim>\<open>Clusterer.cpp\<close> works on Eigen matrices of doubles.
  A \<^verbatim>\<open>double\<close> is modelled as a \<^typ>\<open>real\<close>: arithmetic is exact, and a result that
  IEEE arithmetic would make infinite or NaN is the outcome \<open>NonFinite\<close>.
  A \<^verbatim>\<open>RowMatrixXd\<close> is a record of its column count and its rows; Eigen keeps every row
  at the column count, which is the predicate \<open>wf_matrix\<close>.
  A \<^verbatim>\<open>VectorXi\<close> is an \<^typ>\<open>int list\<close>, a \<^verbatim>\<open>VectorXd\<close> a \<^typ>\<open>real list\<close>.
\<close>

datatype error =
    IndexOutOfBounds
  | DimensionMismatch
  | DivisionByZero
  | NonFinite
  | EmptyVector
  | EndIterator
  | RngExhausted

record RowMatrixXd =
  cols :: nat
  row_list :: "real list list"

definition rows :: "RowMatrixXd \<Rightarrow> nat" where
  "rows M = length (row_list M)"

definition wf_matrix :: "RowMatrixXd \<Rightarrow> bool" where
  "wf_matrix M = list_all (\<lambda>r. length r = cols M) (row_list M)"

definition Zero :: "nat \<Rightarrow> nat \<Rightarrow> RowMatrixXd" where
  "Zero r c = \<lparr>cols = c, row_list = replicate r (replicate c 0)\<rparr>"

definition squaredNorm :: "real list \<Rightarrow> real" where
  "squaredNorm v = sum_list (map (\<lambda>x. x * x) v)"

definition rowwise_norm :: "real list \<Rightarrow> real" where
  "rowwise_norm v = sqrt (squaredNorm v)"

text \<open>\<^verbatim>\<open>(-X).rowwise() + m\<close> on one row \<open>x\<close> of \<open>X\<close>.\<close>

definition neg_plus :: "real list \<Rightarrow> real list \<Rightarrow> real list" where
  "neg_plus x m = map2 (\<lambda>a b. - a + b) x m"

text \<open>\<^verbatim>\<open>isZero(0)\<close>: every coefficient has absolute value at most the precision 0.\<close>

definition isZero :: "real list \<Rightarrow> bool" where
  "isZero r = list_all (\<lambda>x. \<bar>x\<bar> \<le> 0) r"

section \<open>\<^verbatim>\<open>allocate_clusters\<close>\<close>

text \<open>The loop of lines 40 to 49: the indices of the candidate centers, in increasing order.\<close>

definition active_indices :: "RowMatrixXd \<Rightarrow> bool \<Rightarrow> nat list" where
  "active_indices mu no_zero =
     filter (\<lambda>i. if no_zero then \<not> isZero (row_list mu ! i) else True) [0..<rows mu]"

text \<open>
  \<^verbatim>\<open>minCoeff(&min_index)\<close>: Eigen's visitor starts at coefficient 0 and moves to a later
  coefficient only when it is strictly smaller.
\<close>

fun minCoeff_visit :: "real \<Rightarrow> nat \<Rightarrow> nat \<Rightarrow> real list \<Rightarrow> nat" where
  "minCoeff_visit res ri i [] = ri"
| "minCoeff_visit res ri i (v # vs) =
     (if v < res then minCoeff_visit v i (Suc i) vs else minCoeff_visit res ri (Suc i) vs)"

definition minCoeff :: "real list \<Rightarrow> error + nat" where
  "minCoeff xs = (case xs of [] \<Rightarrow> Inl EmptyVector | v # vs \<Rightarrow> Inr (minCoeff_visit v 0 1 vs))"

text \<open>Row \<open>j\<close> of the matrix \<^verbatim>\<open>distances\<close>: the distance of point \<open>x\<close> to every candidate.\<close>

definition distances_row :: "RowMatrixXd \<Rightarrow> nat list \<Rightarrow> real list \<Rightarrow> real list" where
  "distances_row mu active x = map (\<lambda>a. rowwise_norm (neg_plus x (row_list mu ! a))) active"

text \<open>Sequencing of fallible steps: the first failure ends the computation.\<close>

fun mapM :: "('a \<Rightarrow> error + 'b) \<Rightarrow> 'a list \<Rightarrow> error + 'b list" where
  "mapM f [] = Inr []"
| "mapM f (x # xs) =
     (case f x of Inl e \<Rightarrow> Inl e
      | Inr y \<Rightarrow> (case mapM f xs of Inl e \<Rightarrow> Inl e | Inr ys \<Rightarrow> Inr (y # ys)))"

text \<open>Lines 63 to 66 for one point: the candidate at the position \<^verbatim>\<open>minCoeff\<close> finds.\<close>

definition nearest :: "RowMatrixXd \<Rightarrow> nat list \<Rightarrow> real list \<Rightarrow> error + int" where
  "nearest mu active x =
     (case minCoeff (distances_row mu active x) of
        Inl e \<Rightarrow> Inl e
      | Inr min_index \<Rightarrow> Inr (int (active ! min_index)))"

text \<open>
  The row operation of line 58 needs \<open>X\<close> and \<open>mu\<close> to have the same number of columns;
  Eigen rejects anything else, which is the outcome \<open>DimensionMismatch\<close>.
\<close>

definition allocate_clusters :: "RowMatrixXd \<Rightarrow> RowMatrixXd \<Rightarrow> bool \<Rightarrow> error + int list" where
  "allocate_clusters X mu no_zero =
     (let active = active_indices mu no_zero in
      if length active < 2 then Inr (replicate (rows X) 0)
      else if cols X \<noteq> cols mu then Inl DimensionMismatch
      else mapM (nearest mu active) (row_list X))"

section \<open>\<^verbatim>\<open>reevaluate_centers\<close>\<close>

text \<open>
  Lines 99 to 102: row \<open>i\<close> of \<open>X\<close> is added to row \<^verbatim>\<open>inds(i)\<close> of \<^verbatim>\<open>centers\<close> and counted in
  \<^verbatim>\<open>nums\<close>. A label outside \<open>[0, k)\<close>, or a missing label, is an access out of bounds.
\<close>

fun accumulate_rows ::
  "nat \<Rightarrow> real list list \<Rightarrow> int list \<Rightarrow> real list list \<Rightarrow> int list
   \<Rightarrow> error + (real list list \<times> int list)" where
  "accumulate_rows k [] inds centers nums = Inr (centers, nums)"
| "accumulate_rows k (x # xs) [] centers nums = Inl IndexOutOfBounds"
| "accumulate_rows k (x # xs) (c # cs) centers nums =
     (if 0 \<le> c \<and> c < int k
      then accumulate_rows k xs cs
             (centers[nat c := map2 (+) (centers ! nat c) x])
             (nums[nat c := nums ! nat c + 1])
      else Inl IndexOutOfBounds)"

text \<open>
  Lines 104 to 107 for one coefficient with sum \<open>s\<close> and count \<open>n\<close>:
  \<^verbatim>\<open>mu_p = (s - reg/2)/n\<close>, \<^verbatim>\<open>mu_n = (s + reg/2)/n\<close>, and the result is
  \<^verbatim>\<open>min(mu_n, max(mu_p, 0))\<close>. With \<open>n = 0\<close> the two quotients are infinite or NaN in
  IEEE arithmetic; the result is finite only when \<open>mu_p\<close> is \<open>-\<infinity>\<close> and \<open>mu_n\<close> is
  \<open>+\<infinity>\<close>, and then it is 0.
\<close>

definition center_coeff :: "real \<Rightarrow> int \<Rightarrow> real \<Rightarrow> real option" where
  "center_coeff s n reg =
     (if n = 0
      then (if s - reg / 2 < 0 \<and> 0 < s + reg / 2 then Some 0 else None)
      else (let mu_p = (s - reg / 2) / real_of_int n;
                mu_n = (s + reg / 2) / real_of_int n
            in Some (min mu_n (max mu_p 0))))"

definition center_row :: "real \<Rightarrow> real list \<times> int \<Rightarrow> error + real list" where
  "center_row reg cn =
     (case those (map (\<lambda>s. center_coeff s (snd cn) reg) (fst cn)) of
        None \<Rightarrow> Inl NonFinite
      | Some r \<Rightarrow> Inr r)"

definition reevaluate_centers ::
  "RowMatrixXd \<Rightarrow> int list \<Rightarrow> nat \<Rightarrow> real \<Rightarrow> error + RowMatrixXd" where
  "reevaluate_centers X inds k reg =
     (case accumulate_rows k (row_list X) inds (row_list (Zero k (cols X))) (replicate k 0) of
        Inl e \<Rightarrow> Inl e
      | Inr (centers, nums) \<Rightarrow>
          (case mapM (center_row reg) (zip centers nums) of
             Inl e \<Rightarrow> Inl e
           | Inr mu_new \<Rightarrow> Inr \<lparr>cols = cols X, row_list = mu_new\<rparr>))"

section \<open>\<^verbatim>\<open>element_from_vector\<close>\<close>

text \<open>
  The pseudo-random generator is the list of the values it is going to return; a run that
  asks for more values than the list holds ends in \<open>RngExhausted\<close>.
\<close>

definition rand :: "nat list \<Rightarrow> error + (nat \<times> nat list)" where
  "rand rng = (case rng of [] \<Rightarrow> Inl RngExhausted | r # rng' \<Rightarrow> Inr (r, rng'))"

text \<open>
  A \<^verbatim>\<open>std::map<double, unsigned int>\<close> is an association list with strictly increasing keys.
  \<open>map_assign\<close> is \<^verbatim>\<open>map[key] = value\<close>, \<open>upper_bound\<close> the first entry with a key greater
  than \<open>x\<close>, and \<open>map_subscript\<close> is reading \<^verbatim>\<open>map[x]\<close>, which gives the value 0 of a fresh
  entry when the key is absent.
\<close>

fun map_assign :: "real \<Rightarrow> nat \<Rightarrow> (real \<times> nat) list \<Rightarrow> (real \<times> nat) list" where
  "map_assign key v [] = [(key, v)]"
| "map_assign key v ((k', v') # m) =
     (if key < k' then (key, v) # (k', v') # m
      else if key = k' then (key, v) # m
      else (k', v') # map_assign key v m)"

fun upper_bound :: "real \<Rightarrow> (real \<times> nat) list \<Rightarrow> (real \<times> nat) option" where
  "upper_bound x [] = None"
| "upper_bound x ((k', v') # m) = (if x < k' then Some (k', v') else upper_bound x m)"

definition map_subscript :: "(real \<times> nat) list \<Rightarrow> real \<Rightarrow> nat" where
  "map_subscript m x = (case map_of m x of None \<Rightarrow> 0 | Some v \<Rightarrow> v)"

text \<open>Lines 129 to 134, from index \<open>i\<close> on.\<close>

fun cumulate :: "real list \<Rightarrow> nat \<Rightarrow> real \<Rightarrow> (real \<times> nat) list \<Rightarrow> real \<times> (real \<times> nat) list" where
  "cumulate [] i cum m = (cum, m)"
| "cumulate (e # es) i cum m =
     (if e > 0 then cumulate es (Suc i) (cum + e) (map_assign (cum + e) i m)
      else cumulate es (Suc i) cum m)"

text \<open>
  \<open>RAND_MAX\<close> is a constant of the C library and a parameter here; \<^verbatim>\<open>rand()\<close> returns a value
  in \<open>[0, RAND_MAX]\<close>.
\<close>

definition element_from_vector ::
  "nat \<Rightarrow> real list \<Rightarrow> nat list \<Rightarrow> error + (nat \<times> nat list)" where
  "element_from_vector RAND_MAX elements rng =
     (let (cum, m) = cumulate elements 0 0 [] in
      case rand rng of
        Inl e \<Rightarrow> Inl e
      | Inr (r, rng') \<Rightarrow>
          (let x = (real r / real RAND_MAX) * cum in
           if x < cum
           then (case upper_bound x m of
                   None \<Rightarrow> Inl EndIterator
                 | Some iter \<Rightarrow> Inr (snd iter, rng'))
           else Inr (map_subscript m x, rng')))"

section \<open>\<^verbatim>\<open>initialize_mu\<close>\<close>

text \<open>\<^verbatim>\<open>mu.row(i) = X.row(j)\<close>; both indices are checked, as Eigen does.\<close>

definition assign_row :: "RowMatrixXd \<Rightarrow> nat \<Rightarrow> RowMatrixXd \<Rightarrow> nat \<Rightarrow> error + RowMatrixXd" where
  "assign_row mu i X j =
     (if i < rows mu \<and> j < rows X
      then Inr (mu\<lparr>row_list := (row_list mu)[i := row_list X ! j]\<rparr>)
      else Inl IndexOutOfBounds)"

text \<open>\<^verbatim>\<open>((-X).rowwise() + mu.row(i)).rowwise().squaredNorm()\<close>\<close>

definition squared_dists :: "RowMatrixXd \<Rightarrow> RowMatrixXd \<Rightarrow> nat \<Rightarrow> error + real list" where
  "squared_dists X mu i =
     (if i < rows mu
      then Inr (map (\<lambda>x. squaredNorm (neg_plus x (row_list mu ! i))) (row_list X))
      else Inl IndexOutOfBounds)"

text \<open>The loop of lines 163 to 174, from center index \<open>i\<close> on.\<close>

function seed_rest ::
  "nat \<Rightarrow> RowMatrixXd \<Rightarrow> nat \<Rightarrow> nat \<Rightarrow> RowMatrixXd \<Rightarrow> real list \<Rightarrow> nat list
   \<Rightarrow> error + (RowMatrixXd \<times> nat list)" where
  "seed_rest RAND_MAX X k i mu dists rng =
     (if i < k
      then (case squared_dists X mu (i - 1) of
              Inl e \<Rightarrow> Inl e
            | Inr temp_dists \<Rightarrow>
                (let dists = map2 (\<lambda>t d. if t < d then t else d) temp_dists dists in
                 case element_from_vector RAND_MAX dists rng of
                   Inl e \<Rightarrow> Inl e
                 | Inr (element_index, rng') \<Rightarrow>
                     (case assign_row mu i X element_index of
                        Inl e \<Rightarrow> Inl e
                      | Inr mu' \<Rightarrow> seed_rest RAND_MAX X k (Suc i) mu' dists rng')))
      else Inr (mu, rng))"
  by pat_completeness auto
termination
  by (relation "measure (\<lambda>(RAND_MAX, X, k, i, mu, dists, rng). k - i)") auto

declare seed_rest.simps [simp del]

text \<open>
  Lines 150 to 162. \<^verbatim>\<open>std::rand() % X_rows\<close> with no rows is a division by zero; rows 0 and 1
  of \<open>mu\<close> are written whatever \<open>k\<close> is.
\<close>

definition initialize_mu ::
  "nat \<Rightarrow> RowMatrixXd \<Rightarrow> nat \<Rightarrow> nat list \<Rightarrow> error + (RowMatrixXd \<times> nat list)" where
  "initialize_mu RAND_MAX X k rng =
     (let mu = Zero k (cols X) in
      case rand rng of
        Inl e \<Rightarrow> Inl e
      | Inr (r, rng1) \<Rightarrow>
          if rows X = 0 then Inl DivisionByZero
          else
            (let randi = r mod rows X in
             case assign_row mu 0 X randi of
               Inl e \<Rightarrow> Inl e
             | Inr mu \<Rightarrow>
                 (case squared_dists X mu 0 of
                    Inl e \<Rightarrow> Inl e
                  | Inr dists \<Rightarrow>
                      (case element_from_vector RAND_MAX dists rng1 of
                         Inl e \<Rightarrow> Inl e
                       | Inr (element_index, rng2) \<Rightarrow>
                           (case assign_row mu 1 X element_index of
                              Inl e \<Rightarrow> Inl e
                            | Inr mu \<Rightarrow> seed_rest RAND_MAX X k 2 mu dists rng2)))))"

section \<open>\<^verbatim>\<open>cluster_norm\<close>\<close>

text \<open>\<^verbatim>\<open>(X.row(i) - centers.row(ind(i))).squaredNorm()\<close> for row \<open>x\<close> with label \<open>c\<close>.\<close>

definition row_ssq :: "RowMatrixXd \<Rightarrow> real list \<times> int \<Rightarrow> error + real" where
  "row_ssq centers xc =
     (if 0 \<le> snd xc \<and> snd xc < int (rows centers)
      then Inr (squaredNorm (map2 (-) (fst xc) (row_list centers ! nat (snd xc))))
      else Inl IndexOutOfBounds)"

definition cluster_norm :: "RowMatrixXd \<Rightarrow> RowMatrixXd \<Rightarrow> int list \<Rightarrow> real \<Rightarrow> error + real" where
  "cluster_norm X centers ind reg =
     (if length ind < rows X then Inl IndexOutOfBounds
      else if rows X > 0 \<and> cols X \<noteq> cols centers then Inl DimensionMismatch
      else (case mapM (row_ssq centers) (zip (row_list X) ind) of
              Inl e \<Rightarrow> Inl e
            | Inr ds \<Rightarrow>
                Inr (sum_list ds
                     + sum_list (concat (map (\<lambda>i. map (\<lambda>j. row_list centers ! j ! i * reg)
                                                     [0..<rows centers])
                                             [0..<cols centers])))))"

section \<open>\<^verbatim>\<open>find_centers\<close>\<close>

record Return_values =
  indexes :: "int list"
  indexes_no_zero :: "int list"
  centers :: RowMatrixXd
  centers_no_zero :: RowMatrixXd
  norm_value :: real
  norm_no_zero :: real

definition count_limit :: nat where
  "count_limit = 1000"

text \<open>The regularization of line 251: \<^verbatim>\<open>std::min(reg, reg*((float)i/(float)20))\<close>.\<close>

definition annealed_reg :: "real \<Rightarrow> nat \<Rightarrow> real" where
  "annealed_reg reg i = min reg (reg * (real i / real 20))"

text \<open>
  The loop of lines 244 to 252, from iteration \<open>i\<close> on, over the two steps it calls. It
  returns the iteration index at which it stopped, the centers and the last assignment.
\<close>

function iterate_centers ::
  "('m \<Rightarrow> 'v) \<Rightarrow> ('v \<Rightarrow> real \<Rightarrow> 'm) \<Rightarrow> real \<Rightarrow> nat \<Rightarrow> 'm \<Rightarrow> 'v \<Rightarrow> 'v \<Rightarrow> nat \<times> 'm \<times> 'v" where
  "iterate_centers allocate reevaluate reg i mu mu_ind mu_ind_old =
     (if i < count_limit
      then (let mu_ind = allocate mu in
            if mu_ind = mu_ind_old \<and> i > 20 then (i, mu, mu_ind)
            else iterate_centers allocate reevaluate reg (Suc i)
                   (reevaluate mu_ind (annealed_reg reg i)) mu_ind mu_ind)
      else (i, mu, mu_ind))"
  by pat_completeness auto
termination
  by (relation "measure (\<lambda>(allocate, reevaluate, reg, i, mu, mu_ind, mu_ind_old). count_limit - i)")
     auto

declare iterate_centers.simps [simp del]

text \<open>
  The two steps as \<^verbatim>\<open>find_centers\<close> calls them. A value that has left the model stays
  outside it: a step applied to a failure is that failure.
\<close>

definition allocate_step :: "RowMatrixXd \<Rightarrow> bool \<Rightarrow> error + RowMatrixXd \<Rightarrow> error + int list" where
  "allocate_step X no_zero mu =
     (case mu of Inl e \<Rightarrow> Inl e | Inr m \<Rightarrow> allocate_clusters X m no_zero)"

definition reevaluate_step ::
  "RowMatrixXd \<Rightarrow> nat \<Rightarrow> error + int list \<Rightarrow> real \<Rightarrow> error + RowMatrixXd" where
  "reevaluate_step X k mu_ind reg =
     (case mu_ind of Inl e \<Rightarrow> Inl e | Inr inds \<Rightarrow> reevaluate_centers X inds k reg)"

definition find_centers ::
  "nat \<Rightarrow> RowMatrixXd \<Rightarrow> nat \<Rightarrow> real \<Rightarrow> bool \<Rightarrow> nat list \<Rightarrow> error + (Return_values \<times> nat list)" where
  "find_centers RAND_MAX Xin k reg no_zero rng =
     (let X = Xin in
      case initialize_mu RAND_MAX X k rng of
        Inl e \<Rightarrow> Inl e
      | Inr (mu, rng') \<Rightarrow>
          (case iterate_centers (allocate_step X no_zero) (reevaluate_step X k) reg 0
                  (Inr mu) (Inr (replicate (rows X) 1)) (Inr (replicate (rows X) 0)) of
             (i, Inl e, mu_ind) \<Rightarrow> Inl e
           | (i, Inr mu, Inl e) \<Rightarrow> Inl e
           | (i, Inr mu, Inr mu_ind) \<Rightarrow>
               (case cluster_norm X mu mu_ind reg of
                  Inl e \<Rightarrow> Inl e
                | Inr n1 \<Rightarrow>
                    (case cluster_norm X mu mu_ind reg of
                       Inl e \<Rightarrow> Inl e
                     | Inr n2 \<Rightarrow>
                         Inr (\<lparr>indexes = mu_ind, indexes_no_zero = mu_ind,
                               centers = mu, centers_no_zero = mu,
                               norm_value = n1, norm_no_zero = n2\<rparr>, rng')))))"

section \<open>\<^verbatim>\<open>cluster_distance\<close>\<close>

text \<open>Lines 275 to 278: the share of every label in the two label vectors.\<close>

fun populate ::
  "nat \<Rightarrow> real \<Rightarrow> int list \<Rightarrow> int list \<Rightarrow> real list \<Rightarrow> real list
   \<Rightarrow> error + (real list \<times> real list)" where
  "populate k size_d [] c2 population1 population2 = Inr (population1, population2)"
| "populate k size_d (a # c1) [] population1 population2 = Inl IndexOutOfBounds"
| "populate k size_d (a # c1) (b # c2) population1 population2 =
     (if 0 \<le> a \<and> a < int k \<and> 0 \<le> b \<and> b < int k
      then populate k size_d c1 c2
             (population1[nat a := population1 ! nat a + 1 / size_d])
             (population2[nat b := population2 ! nat b + 1 / size_d])
      else Inl IndexOutOfBounds)"

text \<open>The two factors of \<^verbatim>\<open>false1\<close> and of \<^verbatim>\<open>false2\<close>, lines 281 and 282.\<close>

definition same_rate :: "real \<Rightarrow> real list \<Rightarrow> real" where
  "same_rate size_d population =
     sum_list (map (\<lambda>p. p * (p - 1 / size_d) * (size_d / (size_d - 1))) population)"

definition differ_rate :: "real \<Rightarrow> real list \<Rightarrow> real" where
  "differ_rate size_d population =
     sum_list (map (\<lambda>p. p * (1 - (p - 1 / size_d) * (size_d / (size_d - 1)))) population)"

text \<open>
  The loop of lines 291 to 295: two random coefficients are drawn until the two indices
  differ. Every coefficient takes one value of the generator.
\<close>

fun draw_pair :: "nat \<Rightarrow> nat list \<Rightarrow> error + ((nat \<times> nat) \<times> nat list)" where
  "draw_pair intSize [] = Inl RngExhausted"
| "draw_pair intSize [a] = Inl RngExhausted"
| "draw_pair intSize (a # b # rng) =
     (let i = a mod intSize; j = b mod intSize in
      if i = j then draw_pair intSize rng else Inr ((i, j), rng))"

text \<open>The loop of lines 288 to 302 with \<open>num\<close> iterations left.\<close>

fun count_stable ::
  "nat \<Rightarrow> int list \<Rightarrow> int list \<Rightarrow> real \<Rightarrow> nat list \<Rightarrow> error + (real \<times> nat list)" where
  "count_stable 0 c1 c2 stability rng = Inr (stability, rng)"
| "count_stable (Suc num) c1 c2 stability rng =
     (case draw_pair (length c1) rng of
        Inl e \<Rightarrow> Inl e
      | Inr ((i, j), rng') \<Rightarrow>
          count_stable num c1 c2
            (if c1 ! i = c1 ! j \<and> c2 ! i = c2 ! j then stability + 1
             else if c1 ! i \<noteq> c1 ! j \<and> c2 ! i \<noteq> c2 ! j then stability + 1
             else stability)
            rng')"

definition indice_num :: nat where
  "indice_num = 10000"

text \<open>The chance level \<^verbatim>\<open>false1 + false2\<close> of two label vectors.\<close>

definition chance_level :: "real \<Rightarrow> real list \<Rightarrow> real list \<Rightarrow> real" where
  "chance_level size_d population1 population2 =
     (let false1 = same_rate size_d population1 * same_rate size_d population2;
          false2 = differ_rate size_d population1 * differ_rate size_d population2
      in false1 + false2)"

text \<open>
  A modulus by \<open>intSize = 0\<close> is a division by zero. With fewer than two labels, or with a
  chance level of 1, the quotient of line 304 is not a finite number.
\<close>

definition cluster_distance ::
  "int list \<Rightarrow> int list \<Rightarrow> nat \<Rightarrow> nat list \<Rightarrow> error + (real \<times> nat list)" where
  "cluster_distance c1 c2 k rng =
     (let intSize = length c1; size_d = real intSize in
      case populate k size_d c1 c2 (replicate k 0) (replicate k 0) of
        Inl e \<Rightarrow> Inl e
      | Inr (population1, population2) \<Rightarrow>
          if intSize = 0 then Inl DivisionByZero
          else (case count_stable indice_num c1 c2 0 rng of
                  Inl e \<Rightarrow> Inl e
                | Inr (stability, rng') \<Rightarrow>
                    (let chance = chance_level size_d population1 population2 in
                     if intSize < 2 \<or> 1 - chance = 0 then Inl NonFinite
                     else Inr ((stability / real indice_num - chance) / (1 - chance), rng'))))"

section \<open>\<^verbatim>\<open>bootstrap_data\<close> and \<^verbatim>\<open>n_used_clusters\<close>\<close>

definition bootstrap_data ::
  "RowMatrixXd \<Rightarrow> nat \<Rightarrow> nat list \<Rightarrow> error + (RowMatrixXd \<times> nat list)" where
  "bootstrap_data X bootstrapSamples rng =
     (let brows = bootstrapSamples; xrows = rows X in
      if length rng < brows then Inl RngExhausted
      else (let rand_inds = take brows rng in
            if brows > 0 \<and> xrows = 0 then Inl DivisionByZero
            else Inr (\<lparr>cols = cols X,
                       row_list = map (\<lambda>r. row_list X ! (r mod xrows)) rand_inds\<rparr>,
                      drop brows rng)))"

fun mark_used :: "int list \<Rightarrow> int list \<Rightarrow> error + int list" where
  "mark_used [] population = Inr population"
| "mark_used (c # inds) population =
     (if 0 \<le> c \<and> c < int (length population)
      then mark_used inds (population[nat c := 1])
      else Inl IndexOutOfBounds)"

definition n_used_clusters :: "nat \<Rightarrow> int list \<Rightarrow> error + int" where
  "n_used_clusters k inds =
     (case mark_used inds (replicate k 0) of
        Inl e \<Rightarrow> Inl e
      | Inr population \<Rightarrow> Inr (sum_list population))"

section \<open>\<^verbatim>\<open>optimize_param\<close>\<close>

record Optimization_values =
  found_cluster :: RowMatrixXd
  found_cluster_no_zero :: RowMatrixXd
  distances :: RowMatrixXd
  distances_no_zero :: RowMatrixXd
  centers_list :: "RowMatrixXd list list"

definition ebind :: "error + 'a \<Rightarrow> ('a \<Rightarrow> error + 'b) \<Rightarrow> error + 'b" where
  "ebind m f = (case m of Inl e \<Rightarrow> Inl e | Inr x \<Rightarrow> f x)"

text \<open>\<^verbatim>\<open>M(j,l) += v\<close>\<close>

definition add_coeff :: "RowMatrixXd \<Rightarrow> nat \<Rightarrow> nat \<Rightarrow> real \<Rightarrow> error + RowMatrixXd" where
  "add_coeff M j l v =
     (if j < rows M \<and> l < cols M
      then Inr (M\<lparr>row_list := (row_list M)[j := (row_list M ! j)[l := row_list M ! j ! l + v]]\<rparr>)
      else Inl IndexOutOfBounds)"

text \<open>\<^verbatim>\<open>M / d\<close>: with \<open>d = 0\<close> no coefficient of the quotient is finite.\<close>

definition divide_by :: "RowMatrixXd \<Rightarrow> real \<Rightarrow> error + RowMatrixXd" where
  "divide_by M d =
     (if d = 0 \<and> concat (row_list M) \<noteq> [] then Inl NonFinite
      else Inr (M\<lparr>row_list := map (map (\<lambda>x. x / d)) (row_list M)\<rparr>))"

text \<open>
  The state of the three nested loops: the two accumulated matrices, the collected centers
  and the generator.
\<close>

type_synonym search_state = "RowMatrixXd \<times> RowMatrixXd \<times> RowMatrixXd list list \<times> nat list"

text \<open>The body of the innermost loop, lines 354 to 382, for the grid cell \<open>(j, l)\<close>.\<close>

definition grid_cell ::
  "nat \<Rightarrow> RowMatrixXd \<Rightarrow> nat list \<Rightarrow> real list \<Rightarrow> nat \<Rightarrow> nat \<times> nat \<Rightarrow> search_state
   \<Rightarrow> error + search_state" where
  "grid_cell RAND_MAX X k reg bootstrapSamples jl st =
     (case (jl, st) of ((j, l), (distances_acc, found_cluster_acc, collected, rng)) \<Rightarrow>
      ebind (bootstrap_data X bootstrapSamples rng) (\<lambda>(b1, rng).
      ebind (bootstrap_data X bootstrapSamples rng) (\<lambda>(b2, rng).
      let remove_zeros = True in
      ebind (find_centers RAND_MAX b1 (k ! j) (reg ! l) remove_zeros rng) (\<lambda>(ret1, rng).
      ebind (find_centers RAND_MAX b2 (k ! j) (reg ! l) remove_zeros rng) (\<lambda>(ret2, rng).
      let tempCenters = [centers ret1, centers ret2,
                         centers_no_zero ret1, centers_no_zero ret2];
          collected = collected @ [tempCenters] in
      ebind (allocate_clusters X (centers ret1) False) (\<lambda>ind1.
      ebind (allocate_clusters X (centers ret2) False) (\<lambda>ind2.
      ebind (allocate_clusters X (centers_no_zero ret1) True) (\<lambda>ind1_no_zero.
      ebind (allocate_clusters X (centers_no_zero ret2) True) (\<lambda>ind2_no_zero.
      ebind (cluster_distance ind1 ind2 (k ! j) rng) (\<lambda>(d, rng).
      ebind (add_coeff distances_acc j l d) (\<lambda>distances_acc.
      ebind (n_used_clusters (k ! j) (indexes ret1)) (\<lambda>n1.
      ebind (add_coeff found_cluster_acc j l (real_of_int n1)) (\<lambda>found_cluster_acc.
      ebind (n_used_clusters (k ! j) (indexes ret2)) (\<lambda>n2.
      ebind (add_coeff found_cluster_acc j l (real_of_int n2)) (\<lambda>found_cluster_acc.
      Inr (distances_acc, found_cluster_acc, collected, rng))))))))))))))))"

fun foldM :: "('a \<Rightarrow> 's \<Rightarrow> error + 's) \<Rightarrow> 'a list \<Rightarrow> 's \<Rightarrow> error + 's" where
  "foldM f [] st = Inr st"
| "foldM f (x # xs) st = (case f x st of Inl e \<Rightarrow> Inl e | Inr st' \<Rightarrow> foldM f xs st')"

text \<open>The grid cells in the order the three loops of lines 349 to 352 visit them.\<close>

definition grid_cells :: "nat \<Rightarrow> nat \<Rightarrow> nat \<Rightarrow> (nat \<times> nat) list" where
  "grid_cells iterations k_size reg_size =
     concat (map (\<lambda>i. concat (map (\<lambda>j. map (\<lambda>l. (j, l)) [0..<reg_size]) [0..<k_size]))
                 [0..<iterations])"

text \<open>\<^verbatim>\<open>iterations*2\<close> is a product of 32-bit unsigned integers.\<close>

definition optimize_param ::
  "nat \<Rightarrow> RowMatrixXd \<Rightarrow> nat list \<Rightarrow> real list \<Rightarrow> nat \<Rightarrow> nat \<Rightarrow> nat list
   \<Rightarrow> error + (Optimization_values \<times> nat list)" where
  "optimize_param RAND_MAX Xin k reg iterations bootstrapSamples rng =
     (let X = Xin; k_size = length k; reg_size = length reg;
          distances_acc = Zero k_size reg_size;
          found_cluster_acc = Zero k_size reg_size
      in
      ebind (foldM (grid_cell RAND_MAX X k reg bootstrapSamples)
                   (grid_cells iterations k_size reg_size)
                   (distances_acc, found_cluster_acc, [], rng))
        (\<lambda>(distances_acc, found_cluster_acc, collected, rng).
      ebind (divide_by distances_acc (real iterations)) (\<lambda>ret_distances.
      ebind (divide_by distances_acc (real iterations)) (\<lambda>ret_distances_no_zero.
      ebind (divide_by found_cluster_acc (real ((iterations * 2) mod 2 ^ 32))) (\<lambda>ret_found_cluster.
      ebind (divide_by found_cluster_acc (real ((iterations * 2) mod 2 ^ 32)))
        (\<lambda>ret_found_cluster_no_zero.
      Inr (\<lparr>found_cluster = ret_found_cluster,
            found_cluster_no_zero = ret_found_cluster_no_zero,
            distances = ret_distances,
            distances_no_zero = ret_distances_no_zero,
            centers_list = collected\<rparr>, rng)))))))"

section \<open>The update rule as the specification words it\<close>

text \<open>
  The rows of \<open>X\<close> assigned to label \<open>c\<close>, the sum of their column \<open>j\<close> and their mean, which
  the specification calls \<open>m\<close>.
\<close>

definition assigned_rows :: "real list list \<Rightarrow> int list \<Rightarrow> nat \<Rightarrow> real list list" where
  "assigned_rows xs inds c = map fst (filter (\<lambda>xl. snd xl = int c) (zip xs inds))"

definition column_sum :: "real list list \<Rightarrow> nat \<Rightarrow> real" where
  "column_sum rs j = sum_list (map (\<lambda>x. x ! j) rs)"

definition cluster_mean :: "RowMatrixXd \<Rightarrow> int list \<Rightarrow> nat \<Rightarrow> nat \<Rightarrow> real" where
  "cluster_mean X inds c j =
     column_sum (assigned_rows (row_list X) inds c) j
       / real (length (assigned_rows (row_list X) inds c))"

text \<open>
  Follows the specification's words: \<^verbatim>\<open>min(m + reg/2, max(m - reg/2, 0))\<close>.
\<close>

definition spec_center :: "real \<Rightarrow> real \<Rightarrow> real" where
  "spec_center m reg = min (m + reg / 2) (max (m - reg / 2) 0)"

text \<open>An assignment vector for \<open>X\<close> over \<open>k\<close> labels, none of them empty.\<close>

definition labels_in_range :: "RowMatrixXd \<Rightarrow> int list \<Rightarrow> nat \<Rightarrow> bool" where
  "labels_in_range X inds k =
     (length inds = rows X \<and> list_all (\<lambda>l. 0 \<le> l \<and> l < int k) inds)"

definition no_empty_label :: "RowMatrixXd \<Rightarrow> int list \<Rightarrow> nat \<Rightarrow> bool" where
  "no_empty_label X inds k =
     list_all (\<lambda>c. assigned_rows (row_list X) inds c \<noteq> []) [0..<k]"

text \<open>Lines 104 to 107 for one coefficient with sum \<open>s\<close> and a count \<open>n\<close> that is not zero.\<close>

definition code_center :: "real \<Rightarrow> real \<Rightarrow> int \<Rightarrow> real" where
  "code_center reg s n =
     min ((s + reg / 2) / real_of_int n) (max ((s - reg / 2) / real_of_int n) 0)"

section \<open>Nearest candidates as the specification words them\<close>

text \<open>
  Follows the specification's words: the Euclidean distance of two rows, and the candidate
  centers, which are all the centers or, when \<open>no_zero\<close> is set, those whose row is not
  the zero vector.
\<close>

definition euclidean :: "real list \<Rightarrow> real list \<Rightarrow> real" where
  "euclidean x y = sqrt (\<Sum>i<length x. (x ! i - y ! i)\<^sup>2)"

definition is_candidate :: "RowMatrixXd \<Rightarrow> bool \<Rightarrow> nat \<Rightarrow> bool" where
  "is_candidate mu no_zero i =
     (i < rows mu \<and> (no_zero \<longrightarrow> list_ex (\<lambda>v. v \<noteq> 0) (row_list mu ! i)))"

section \<open>The iterations of \<^verbatim>\<open>find_centers\<close> one by one\<close>

text \<open>
  The centers and the previous assignment at the start of iteration \<open>n\<close> of a loop that
  has not stopped before: every earlier iteration allocates, remembers the assignment and
  updates the centers.
\<close>

fun state_before ::
  "('m \<Rightarrow> 'v) \<Rightarrow> ('v \<Rightarrow> real \<Rightarrow> 'm) \<Rightarrow> real \<Rightarrow> 'm \<Rightarrow> 'v \<Rightarrow> nat \<Rightarrow> 'm \<times> 'v" where
  "state_before allocate reevaluate reg mu mu_ind_old 0 = (mu, mu_ind_old)"
| "state_before allocate reevaluate reg mu mu_ind_old (Suc n) =
     (let mu_ind = allocate (fst (state_before allocate reevaluate reg mu mu_ind_old n))
      in (reevaluate mu_ind (annealed_reg reg n), mu_ind))"

text \<open>
  Follows the specification's words: at an iteration index greater than 20, the freshly
  computed assignment is identical to the one of the previous iteration.
\<close>

definition converged_at ::
  "('m \<Rightarrow> 'v) \<Rightarrow> ('v \<Rightarrow> real \<Rightarrow> 'm) \<Rightarrow> real \<Rightarrow> 'm \<Rightarrow> 'v \<Rightarrow> nat \<Rightarrow> bool" where
  "converged_at allocate reevaluate reg mu mu_ind_old n =
     (20 < n \<and> allocate (fst (state_before allocate reevaluate reg mu mu_ind_old n))
               = snd (state_before allocate reevaluate reg mu mu_ind_old n))"

text \<open>A data matrix for concrete runs: the two points 1 and 3 on a line.\<close>

definition two_points :: RowMatrixXd where
  "two_points = \<lparr>cols = 1, row_list = [[1], [3]]\<rparr>"

section \<open>The supply of random pairs\<close>

text \<open>
  The generator's values two by two, as the loop of \<^verbatim>\<open>cluster_distance\<close> takes them, and the
  number of pairs whose two indices modulo \<open>n\<close> differ: the pairs that end a round of
  drawing.
\<close>

fun pairs :: "nat list \<Rightarrow> (nat \<times> nat) list" where
  "pairs (a # b # rng) = (a, b) # pairs rng"
| "pairs rng = []"

definition usable_pairs :: "nat \<Rightarrow> nat list \<Rightarrow> nat" where
  "usable_pairs n rng = length (filter (\<lambda>ab. fst ab mod n \<noteq> snd ab mod n) (pairs rng))"

text \<open>A second one: the points 1, 3 and 3.\<close>

definition three_points :: RowMatrixXd where
  "three_points = \<lparr>cols = 1, row_list = [[1], [3], [3]]\<rparr>"

section \<open>The degenerate case of \<^verbatim>\<open>allocate_clusters\<close>\<close>

text \<open>
  Claim C7: whenever fewer than two candidate centers remain, \<^verbatim>\<open>allocate_clusters\<close> returns
  the all-zero assignment vector with one entry per row of \<open>X\<close>, for every \<open>X\<close> and \<open>mu\<close>;
  the result is a value, not a failure.
\<close>

theorem allocate_degenerate:
  "length (active_indices mu no_zero) < 2 \<Longrightarrow>
   allocate_clusters X mu no_zero = Inr (replicate (rows X) 0)"
  by (simp add: allocate_clusters_def)

theorem allocate_degenerate_witness:
  "length (active_indices \<lparr>cols = 1, row_list = [[0],[3]]\<rparr> True) < 2 \<and>
   allocate_clusters \<lparr>cols = 1, row_list = [[1],[2]]\<rparr> \<lparr>cols = 1, row_list = [[0],[3]]\<rparr> True
     = Inr [0, 0]"
proof -
  have h: "length (active_indices \<lparr>cols = 1, row_list = [[0],[3]]\<rparr> True) < 2"
    by (simp add: active_indices_def rows_def isZero_def)
  show ?thesis
    using h allocate_degenerate [OF h, of "\<lparr>cols = 1, row_list = [[1],[2]]\<rparr>"]
    by (simp add: rows_def)
qed

section \<open>Weighted picking\<close>

lemma map_assign_keys: "fst ` set (map_assign key v m) = insert key (fst ` set m)"
proof (induction m)
  case Nil
  show ?case by simp
next
  case (Cons a m)
  obtain k' v' where a: "a = (k', v')" by (cases a)
  show ?case
  proof (cases "key < k'")
    case True
    then show ?thesis using a by simp
  next
    case False
    show ?thesis
    proof (cases "key = k'")
      case True
      then show ?thesis using a by simp
    next
      case neq: False
      then show ?thesis using a False Cons.IH by (simp add: insert_commute)
    qed
  qed
qed

lemma map_assign_entries: "set (map_assign key v m) \<subseteq> insert (key, v) (set m)"
  by (induction m) (auto split: if_splits)

lemma upper_bound_mem: "upper_bound x m = Some kv \<Longrightarrow> kv \<in> set m"
  by (induction m) (auto split: if_splits)

lemma upper_bound_None: "upper_bound x m = None \<Longrightarrow> (k', v') \<in> set m \<Longrightarrow> k' \<le> x"
  by (induction m) (auto split: if_splits)

lemma cumulate_entries:
  "cumulate es i cum m = (cum', m') \<Longrightarrow>
   \<forall>kv\<in>set m. P (snd kv) \<Longrightarrow>
   \<forall>j<length es. 0 < es ! j \<longrightarrow> P (i + j) \<Longrightarrow>
   \<forall>kv\<in>set m'. P (snd kv)"
proof (induction es arbitrary: i cum m)
  case Nil
  then show ?case by simp
next
  case (Cons e es)
  have later: "\<forall>j<length es. 0 < es ! j \<longrightarrow> P (Suc i + j)"
    using Cons.prems(3) by (metis Suc_less_eq add_Suc_shift length_Cons nth_Cons_Suc)
  show ?case
  proof (cases "e > 0")
    case True
    have here: "P i" using Cons.prems(3) True by force
    have "\<forall>kv\<in>set (map_assign (cum + e) i m). P (snd kv)"
      using map_assign_entries [of "cum + e" i m] Cons.prems(2) here by auto
    moreover have "cumulate es (Suc i) (cum + e) (map_assign (cum + e) i m) = (cum', m')"
      using Cons.prems(1) True by simp
    ultimately show ?thesis using Cons.IH later by blast
  next
    case False
    then have "cumulate es (Suc i) cum m = (cum', m')" using Cons.prems(1) by simp
    then show ?thesis using Cons.IH Cons.prems(2) later by blast
  qed
qed

lemma cumulate_keeps:
  "cumulate es i cum m = (cum', m') \<Longrightarrow> cum \<in> fst ` set m \<Longrightarrow> 0 < cum \<Longrightarrow>
   cum' \<in> fst ` set m' \<and> 0 < cum'"
proof (induction es arbitrary: i cum m)
  case Nil
  then show ?case by simp
next
  case (Cons e es)
  show ?case
  proof (cases "e > 0")
    case True
    have step: "cumulate es (Suc i) (cum + e) (map_assign (cum + e) i m) = (cum', m')"
      using Cons.prems(1) True by simp
    have "cum + e \<in> fst ` set (map_assign (cum + e) i m)"
      by (simp add: map_assign_keys)
    moreover have "0 < cum + e" using True Cons.prems(3) by simp
    ultimately show ?thesis using Cons.IH [OF step] by blast
  next
    case False
    then have step: "cumulate es (Suc i) cum m = (cum', m')" using Cons.prems(1) by simp
    show ?thesis using Cons.IH [OF step Cons.prems(2) Cons.prems(3)] .
  qed
qed

lemma cumulate_total:
  "cumulate es i cum m = (cum', m') \<Longrightarrow> 0 \<le> cum \<Longrightarrow> \<exists>e\<in>set es. 0 < e \<Longrightarrow>
   cum' \<in> fst ` set m' \<and> 0 < cum'"
proof (induction es arbitrary: i cum m)
  case Nil
  then show ?case by simp
next
  case (Cons e es)
  show ?case
  proof (cases "e > 0")
    case True
    have step: "cumulate es (Suc i) (cum + e) (map_assign (cum + e) i m) = (cum', m')"
      using Cons.prems(1) True by simp
    have "cum + e \<in> fst ` set (map_assign (cum + e) i m)"
      by (simp add: map_assign_keys)
    moreover have "0 < cum + e" using True Cons.prems(2) by simp
    ultimately show ?thesis using cumulate_keeps [OF step] by blast
  next
    case False
    then have step: "cumulate es (Suc i) cum m = (cum', m')" using Cons.prems(1) by simp
    have "\<exists>e\<in>set es. 0 < e" using Cons.prems(3) False by auto
    then show ?thesis using Cons.IH [OF step Cons.prems(2)] by blast
  qed
qed

text \<open>
  Claim C5: for a weight vector with at least one strictly positive entry and for every
  value \<^verbatim>\<open>rand()\<close> can return, \<^verbatim>\<open>element_from_vector\<close> returns an index of the vector
  whose weight is strictly positive.
\<close>

theorem element_from_vector_positive:
  assumes max_pos: "0 < RAND_MAX"
    and draw: "r \<le> RAND_MAX"
    and some_pos: "\<exists>i<length elements. 0 < elements ! i"
  shows "\<exists>ret. element_from_vector RAND_MAX elements (r # rng) = Inr (ret, rng)
           \<and> ret < length elements \<and> 0 < elements ! ret"
proof -
  obtain cum m where cm: "cumulate elements 0 0 [] = (cum, m)"
    by (cases "cumulate elements 0 0 []") auto
  let ?P = "\<lambda>v. v < length elements \<and> 0 < elements ! v"
  have vals: "\<forall>kv\<in>set m. ?P (snd kv)"
    using cumulate_entries [OF cm, of ?P] by simp
  have "\<exists>e\<in>set elements. 0 < e" using some_pos by (meson nth_mem)
  then have key: "cum \<in> fst ` set m" and pos: "0 < cum"
    using cumulate_total [OF cm] by auto
  let ?x = "(real r / real RAND_MAX) * cum"
  have ratio: "real r / real RAND_MAX \<le> 1" using max_pos draw by simp
  have le: "?x \<le> cum"
    using mult_right_mono [OF ratio, of cum] pos by simp
  show ?thesis
  proof (cases "?x < cum")
    case True
    obtain v where kv: "(cum, v) \<in> set m" using key by auto
    have "upper_bound ?x m \<noteq> None"
    proof
      assume "upper_bound ?x m = None"
      then have "cum \<le> ?x" using kv by (rule upper_bound_None)
      then show False using True by linarith
    qed
    then obtain iter where it: "upper_bound ?x m = Some iter" by blast
    then have "?P (snd iter)" using upper_bound_mem vals by blast
    then show ?thesis
      using cm True it by (simp add: element_from_vector_def rand_def)
  next
    case False
    then have eq: "?x = cum" using le by simp
    obtain v where mv: "map_of m cum = Some v"
      using key by (metis map_of_eq_None_iff not_Some_eq)
    then have "(cum, v) \<in> set m" by (rule map_of_SomeD)
    then have "?P v" using vals by force
    then show ?thesis
      using cm False eq mv by (simp add: element_from_vector_def rand_def map_subscript_def)
  qed
qed

theorem element_from_vector_positive_witness:
  "(0::nat) < 10 \<and> (5::nat) \<le> 10 \<and> (\<exists>i<length [0, 5, 0, 5::real]. 0 < [0, 5, 0, 5::real] ! i) \<and>
   (\<exists>ret. element_from_vector 10 [0, 5, 0, 5] [5] = Inr (ret, [])
      \<and> ret < length [0, 5, 0, 5::real] \<and> 0 < [0, 5, 0, 5::real] ! ret)"
proof -
  have h1: "(0::nat) < 10" and h2: "(5::nat) \<le> 10" by simp_all
  have h3: "\<exists>i<length [0, 5, 0, 5::real]. 0 < [0, 5, 0, 5::real] ! i"
    by (rule exI [of _ 1]) simp
  show ?thesis
    using h1 h2 h3 element_from_vector_positive [OF h1 h2 h3, of "[]"] by blast
qed


section \<open>The center update\<close>

lemma accumulate_rows_sums:
  assumes "list_all (\<lambda>x. length x = D) xs"
    and "length acc = k" and "list_all (\<lambda>r. length r = D) acc"
    and "length nums = k"
    and "length inds = length xs" and "list_all (\<lambda>l. 0 \<le> l \<and> l < int k) inds"
  shows "\<exists>acc' nums'.
           accumulate_rows k xs inds acc nums = Inr (acc', nums')
           \<and> length acc' = k \<and> length nums' = k
           \<and> (\<forall>c<k. length (acc' ! c) = D
                 \<and> (\<forall>j<D. acc' ! c ! j = acc ! c ! j + column_sum (assigned_rows xs inds c) j)
                 \<and> nums' ! c = nums ! c + int (length (assigned_rows xs inds c)))"
  using assms
proof (induction xs arbitrary: inds acc nums)
  case Nil
  then show ?case
    by (simp add: assigned_rows_def column_sum_def list_all_length)
next
  case (Cons x xs)
  obtain l ls where inds: "inds = l # ls"
    using Cons.prems(5) by (cases inds) auto
  have l: "0 \<le> l" "l < int k" using Cons.prems(6) inds by auto
  have x: "length x = D" using Cons.prems(1) by simp
  let ?c = "acc[nat l := map2 (+) (acc ! nat l) x]"
  let ?n = "nums[nat l := nums ! nat l + 1]"
  have lk: "nat l < k" using l by linarith
  have old_row: "length (acc ! nat l) = D"
    using Cons.prems(2,3) lk by (simp add: list_all_length)
  have rows': "list_all (\<lambda>r. length r = D) ?c"
    unfolding list_all_length
  proof (intro allI impI)
    fix n assume "n < length ?c"
    then have n: "n < length acc" by simp
    show "length (?c ! n) = D"
    proof (cases "n = nat l")
      case True
      then show ?thesis using n old_row x by simp
    next
      case False
      then show ?thesis using n Cons.prems(3) by (simp add: list_all_length)
    qed
  qed
  have "\<exists>acc' nums'.
           accumulate_rows k xs ls ?c ?n = Inr (acc', nums')
           \<and> length acc' = k \<and> length nums' = k
           \<and> (\<forall>c<k. length (acc' ! c) = D
                 \<and> (\<forall>j<D. acc' ! c ! j = ?c ! c ! j + column_sum (assigned_rows xs ls c) j)
                 \<and> nums' ! c = ?n ! c + int (length (assigned_rows xs ls c)))"
    using Cons.prems inds rows' by (intro Cons.IH) simp_all
  then obtain acc' nums' where
    run: "accumulate_rows k xs ls ?c ?n = Inr (acc', nums')"
    and len: "length acc' = k" "length nums' = k"
    and sums: "\<forall>c<k. length (acc' ! c) = D
                 \<and> (\<forall>j<D. acc' ! c ! j = ?c ! c ! j + column_sum (assigned_rows xs ls c) j)
                 \<and> nums' ! c = ?n ! c + int (length (assigned_rows xs ls c))"
    by blast
  have whole: "accumulate_rows k (x # xs) inds acc nums = Inr (acc', nums')"
    using run inds l by simp
  have "length (acc' ! c) = D
        \<and> (\<forall>j<D. acc' ! c ! j
               = acc ! c ! j + column_sum (assigned_rows (x # xs) inds c) j)
        \<and> nums' ! c = nums ! c + int (length (assigned_rows (x # xs) inds c))"
    if c: "c < k" for c
  proof (cases "l = int c")
    case True
    then have nc: "nat l = c" by simp
    have "?c ! c ! j = acc ! c ! j + x ! j" if "j < D" for j
      using nc c that Cons.prems(2) old_row x by simp
    moreover have "?n ! c = nums ! c + 1"
      using nc c Cons.prems(4) by simp
    moreover have "assigned_rows (x # xs) inds c = x # assigned_rows xs ls c"
      using True inds by (simp add: assigned_rows_def)
    ultimately show ?thesis
      using sums c by (simp add: column_sum_def)
  next
    case False
    then have nc: "nat l \<noteq> c" using l by linarith
    have "?c ! c = acc ! c" and "?n ! c = nums ! c"
      using nc by simp_all
    moreover have "assigned_rows (x # xs) inds c = assigned_rows xs ls c"
      using False inds by (simp add: assigned_rows_def)
    ultimately show ?thesis
      using sums c by simp
  qed
  then show ?case using whole len by blast
qed

lemma those_map_Some: "those (map (\<lambda>s. Some (f s)) xs) = Some (map f xs)"
  by (induction xs) simp_all

lemma mapM_total:
  "\<forall>x\<in>set xs. f x = Inr (g x) \<Longrightarrow> mapM f xs = Inr (map g xs)"
  by (induction xs) simp_all

lemma center_row_counted:
  "snd cn \<noteq> 0 \<Longrightarrow> center_row reg cn = Inr (map (\<lambda>s. code_center reg s (snd cn)) (fst cn))"
  by (simp add: center_row_def center_coeff_def code_center_def those_map_Some Let_def)

lemma reevaluate_centers_sums:
  assumes wf: "wf_matrix X" and labels: "labels_in_range X inds k"
    and members: "no_empty_label X inds k"
  shows "\<exists>mu_new. reevaluate_centers X inds k reg = Inr mu_new
           \<and> cols mu_new = cols X \<and> rows mu_new = k \<and> wf_matrix mu_new
           \<and> (\<forall>c<k. \<forall>j<cols X.
                 row_list mu_new ! c ! j
                   = code_center reg (column_sum (assigned_rows (row_list X) inds c) j)
                       (int (length (assigned_rows (row_list X) inds c))))"
proof -
  let ?D = "cols X"
  let ?rs = "\<lambda>c. assigned_rows (row_list X) inds c"
  have "\<exists>acc' nums'.
           accumulate_rows k (row_list X) inds (row_list (Zero k ?D)) (replicate k 0)
             = Inr (acc', nums')
           \<and> length acc' = k \<and> length nums' = k
           \<and> (\<forall>c<k. length (acc' ! c) = ?D
                 \<and> (\<forall>j<?D. acc' ! c ! j
                        = row_list (Zero k ?D) ! c ! j + column_sum (?rs c) j)
                 \<and> nums' ! c = replicate k 0 ! c + int (length (?rs c)))"
    using wf labels
    by (intro accumulate_rows_sums)
       (simp_all add: wf_matrix_def labels_in_range_def rows_def Zero_def list_all_length)
  then obtain acc' nums' where
    run: "accumulate_rows k (row_list X) inds (row_list (Zero k ?D)) (replicate k 0)
             = Inr (acc', nums')"
    and len: "length acc' = k" "length nums' = k"
    and sums: "\<forall>c<k. length (acc' ! c) = ?D
                 \<and> (\<forall>j<?D. acc' ! c ! j = column_sum (?rs c) j)
                 \<and> nums' ! c = int (length (?rs c))"
    by (auto simp: Zero_def)
  have nonzero: "nums' ! c \<noteq> 0" if "c < k" for c
    using members sums that by (simp add: no_empty_label_def list_all_length)
  let ?g = "\<lambda>cn. map (\<lambda>s. code_center reg s (snd cn)) (fst cn)"
  have "\<forall>cn\<in>set (zip acc' nums'). center_row reg cn = Inr (?g cn)"
  proof
    fix cn assume "cn \<in> set (zip acc' nums')"
    then obtain c where "c < k" "cn = (acc' ! c, nums' ! c)"
      using len by (auto simp: set_zip)
    then show "center_row reg cn = Inr (?g cn)"
      using nonzero center_row_counted by simp
  qed
  then have rowsM: "mapM (center_row reg) (zip acc' nums') = Inr (map ?g (zip acc' nums'))"
    by (rule mapM_total)
  let ?mu = "\<lparr>cols = ?D, row_list = map ?g (zip acc' nums')\<rparr>"
  have res: "reevaluate_centers X inds k reg = Inr ?mu"
    using run rowsM by (simp add: reevaluate_centers_def)
  have "row_list ?mu ! c ! j = code_center reg (column_sum (?rs c) j) (int (length (?rs c)))"
    if "c < k" "j < ?D" for c j
    using that len sums by simp
  moreover have "wf_matrix ?mu"
    using len sums by (auto simp: wf_matrix_def list_all_length)
  ultimately show ?thesis
    using res len by (simp add: rows_def)
qed

lemma code_center_as_spec:
  "0 < n \<Longrightarrow> code_center reg s n = spec_center (s / real_of_int n) (reg / real_of_int n)"
  by (simp add: code_center_def spec_center_def add_divide_distrib diff_divide_distrib)

lemma code_center_sign: "0 < n \<Longrightarrow> (0 \<le> code_center reg s n) = (- (reg / 2) \<le> s)"
proof -
  assume n: "0 < n"
  have "(0 \<le> (s + reg / 2) / real_of_int n) = (0 \<le> s + reg / 2)"
    using n by (simp add: zero_le_divide_iff)
  then show ?thesis
    unfolding code_center_def by (auto simp: min_def max_def)
qed

lemma column_sum_nonneg:
  assumes "list_all (\<lambda>x. length x = D \<and> list_all (\<lambda>v. 0 \<le> v) x) rs" and "j < D"
  shows "0 \<le> column_sum rs j"
proof -
  have "0 \<le> x ! j" if "x \<in> set rs" for x
    using assms that by (auto simp: list_all_iff)
  then show ?thesis
    unfolding column_sum_def by (intro sum_list_nonneg) auto
qed

lemma assigned_rows_subset: "set (assigned_rows xs inds c) \<subseteq> set xs"
  unfolding assigned_rows_def by (auto dest: set_zip_leftD)

text \<open>
  Claim C1, as amended: for a well-formed \<open>X\<close>, an assignment vector over \<open>[0, k)\<close> with no
  empty label and every \<open>reg\<close>, the update succeeds and coefficient \<open>j\<close> of the new center
  of label \<open>c\<close> is \<open>min(m + r/2, max(m - r/2, 0))\<close> with \<open>m\<close> the mean of the rows assigned to
  \<open>c\<close> and \<open>r = reg / n\<close>, where \<open>n\<close> is the number of those rows: the code subtracts
  \<open>reg/2\<close> from the sum of the rows before it divides by their count.
\<close>

theorem reevaluate_centers_mean:
  assumes "wf_matrix X" and "labels_in_range X inds k" and "no_empty_label X inds k"
  shows "\<exists>mu_new. reevaluate_centers X inds k reg = Inr mu_new
           \<and> rows mu_new = k \<and> cols mu_new = cols X
           \<and> (\<forall>c<k. \<forall>j<cols X.
                 row_list mu_new ! c ! j
                   = spec_center (cluster_mean X inds c j)
                       (reg / real (length (assigned_rows (row_list X) inds c))))"
proof -
  obtain mu_new where
    run: "reevaluate_centers X inds k reg = Inr mu_new"
    and shape: "cols mu_new = cols X" "rows mu_new = k"
    and coeff: "\<forall>c<k. \<forall>j<cols X.
                 row_list mu_new ! c ! j
                   = code_center reg (column_sum (assigned_rows (row_list X) inds c) j)
                       (int (length (assigned_rows (row_list X) inds c)))"
    using reevaluate_centers_sums [OF assms] by blast
  have "0 < int (length (assigned_rows (row_list X) inds c))" if "c < k" for c
    using assms(3) that by (simp add: no_empty_label_def list_all_length)
  then have "\<forall>c<k. \<forall>j<cols X.
                 row_list mu_new ! c ! j
                   = spec_center (cluster_mean X inds c j)
                       (reg / real (length (assigned_rows (row_list X) inds c)))"
    using coeff by (simp add: code_center_as_spec cluster_mean_def)
  then show ?thesis using run shape by blast
qed

theorem reevaluate_centers_mean_witness:
  "wf_matrix \<lparr>cols = 1, row_list = [[4], [0]]\<rparr>
   \<and> labels_in_range \<lparr>cols = 1, row_list = [[4], [0]]\<rparr> [0, 0] 1
   \<and> no_empty_label \<lparr>cols = 1, row_list = [[4], [0]]\<rparr> [0, 0] 1
   \<and> (\<exists>mu_new. reevaluate_centers \<lparr>cols = 1, row_list = [[4], [0]]\<rparr> [0, 0] 1 2 = Inr mu_new
          \<and> rows mu_new = 1 \<and> cols mu_new = 1
          \<and> row_list mu_new ! 0 ! 0
               = spec_center (cluster_mean \<lparr>cols = 1, row_list = [[4], [0]]\<rparr> [0, 0] 0 0)
                   (2 / real (length (assigned_rows [[4], [0]] [0, 0] 0))))"
proof -
  let ?X = "\<lparr>cols = 1, row_list = [[4], [0]]\<rparr>"
  have h1: "wf_matrix ?X" by (simp add: wf_matrix_def)
  have h2: "labels_in_range ?X [0, 0] 1" by (simp add: labels_in_range_def rows_def)
  have h3: "no_empty_label ?X [0, 0] 1" by (simp add: no_empty_label_def assigned_rows_def)
  show ?thesis
    using h1 h2 h3 reevaluate_centers_mean [OF h1 h2 h3, of 2] by auto
qed

text \<open>
  The claim as the specification states it fails on two rows \<open>[4]\<close> and \<open>[0]\<close> of one
  label with \<open>reg = 2\<close>: the mean is 2 and the specification's formula gives 1, the code
  returns \<open>3/2\<close>.
\<close>

theorem reevaluate_centers_mean_counterexample:
  "wf_matrix \<lparr>cols = 1, row_list = [[4], [0]]\<rparr>
   \<and> labels_in_range \<lparr>cols = 1, row_list = [[4], [0]]\<rparr> [0, 0] 1
   \<and> no_empty_label \<lparr>cols = 1, row_list = [[4], [0]]\<rparr> [0, 0] 1
   \<and> (0::real) \<le> 2
   \<and> reevaluate_centers \<lparr>cols = 1, row_list = [[4], [0]]\<rparr> [0, 0] 1 2
        = Inr \<lparr>cols = 1, row_list = [[3 / 2]]\<rparr>
   \<and> spec_center (cluster_mean \<lparr>cols = 1, row_list = [[4], [0]]\<rparr> [0, 0] 0 0) 2 = 1
   \<and> (3 / 2 :: real) \<noteq> 1"
  by (simp add: wf_matrix_def labels_in_range_def rows_def no_empty_label_def assigned_rows_def
      reevaluate_centers_def Zero_def center_row_def center_coeff_def
      spec_center_def cluster_mean_def column_sum_def)

text \<open>
  Claim C2, as amended: for a well-formed \<open>X\<close>, an assignment vector over \<open>[0, k)\<close> with no
  empty label and every \<open>reg\<close>, a coefficient of the returned center matrix is non-negative
  exactly when the sum of that column over the rows assigned to the label is at least
  \<open>- reg/2\<close>. So every coefficient is non-negative when \<open>reg \<ge> 0\<close> and no entry of \<open>X\<close> is
  negative.
\<close>

theorem reevaluate_centers_sign:
  assumes "wf_matrix X" and "labels_in_range X inds k" and "no_empty_label X inds k"
  shows "\<exists>mu_new. reevaluate_centers X inds k reg = Inr mu_new
           \<and> (\<forall>c<k. \<forall>j<cols X.
                 (0 \<le> row_list mu_new ! c ! j)
                   = (- (reg / 2) \<le> column_sum (assigned_rows (row_list X) inds c) j))
           \<and> (0 \<le> reg \<and> list_all (list_all (\<lambda>v. 0 \<le> v)) (row_list X)
                \<longrightarrow> (\<forall>c<k. \<forall>j<cols X. 0 \<le> row_list mu_new ! c ! j))"
proof -
  obtain mu_new where
    run: "reevaluate_centers X inds k reg = Inr mu_new"
    and coeff: "\<forall>c<k. \<forall>j<cols X.
                 row_list mu_new ! c ! j
                   = code_center reg (column_sum (assigned_rows (row_list X) inds c) j)
                       (int (length (assigned_rows (row_list X) inds c)))"
    using reevaluate_centers_sums [OF assms] by blast
  have pos: "0 < int (length (assigned_rows (row_list X) inds c))" if "c < k" for c
    using assms(3) that by (simp add: no_empty_label_def list_all_length)
  have sign: "\<forall>c<k. \<forall>j<cols X.
                 (0 \<le> row_list mu_new ! c ! j)
                   = (- (reg / 2) \<le> column_sum (assigned_rows (row_list X) inds c) j)"
    using coeff pos code_center_sign by simp
  have "0 \<le> row_list mu_new ! c ! j"
    if reg: "0 \<le> reg" and X: "list_all (list_all (\<lambda>v. 0 \<le> v)) (row_list X)"
      and c: "c < k" and j: "j < cols X" for c j
  proof -
    have "list_all (\<lambda>x. length x = cols X \<and> list_all (\<lambda>v. 0 \<le> v) x)
            (assigned_rows (row_list X) inds c)"
      using assms(1) X assigned_rows_subset [of "row_list X" inds c]
      by (auto simp: wf_matrix_def list_all_iff)
    then have "0 \<le> column_sum (assigned_rows (row_list X) inds c) j"
      using j by (rule column_sum_nonneg)
    then show ?thesis using sign c j reg by simp
  qed
  then show ?thesis using run sign by blast
qed

theorem reevaluate_centers_sign_witness:
  "wf_matrix \<lparr>cols = 1, row_list = [[4], [0]]\<rparr>
   \<and> labels_in_range \<lparr>cols = 1, row_list = [[4], [0]]\<rparr> [0, 0] 1
   \<and> no_empty_label \<lparr>cols = 1, row_list = [[4], [0]]\<rparr> [0, 0] 1
   \<and> (0::real) \<le> 2 \<and> list_all (list_all (\<lambda>v. 0 \<le> v)) [[4], [0::real]]
   \<and> (\<exists>mu_new. reevaluate_centers \<lparr>cols = 1, row_list = [[4], [0]]\<rparr> [0, 0] 1 2 = Inr mu_new
          \<and> 0 \<le> row_list mu_new ! 0 ! 0)"
proof -
  let ?X = "\<lparr>cols = 1, row_list = [[4], [0]]\<rparr>"
  have h1: "wf_matrix ?X" by (simp add: wf_matrix_def)
  have h2: "labels_in_range ?X [0, 0] 1" by (simp add: labels_in_range_def rows_def)
  have h3: "no_empty_label ?X [0, 0] 1" by (simp add: no_empty_label_def assigned_rows_def)
  have h4: "(0::real) \<le> 2 \<and> list_all (list_all (\<lambda>v. 0 \<le> v)) [[4], [0::real]]" by simp
  show ?thesis
    using h1 h2 h3 h4 reevaluate_centers_sign [OF h1 h2 h3, of 2] by auto
qed

text \<open>
  The claim as the specification states it fails on the single row \<open>[-4]\<close> with
  \<open>reg = 0\<close>: the returned center is \<open>[-4]\<close>.
\<close>

theorem reevaluate_centers_sign_counterexample:
  "wf_matrix \<lparr>cols = 1, row_list = [[- 4]]\<rparr>
   \<and> labels_in_range \<lparr>cols = 1, row_list = [[- 4]]\<rparr> [0] 1
   \<and> no_empty_label \<lparr>cols = 1, row_list = [[- 4]]\<rparr> [0] 1
   \<and> (0::real) \<le> 0
   \<and> reevaluate_centers \<lparr>cols = 1, row_list = [[- 4]]\<rparr> [0] 1 0
        = Inr \<lparr>cols = 1, row_list = [[- 4]]\<rparr>
   \<and> \<not> (0::real) \<le> - 4"
  by (simp add: wf_matrix_def labels_in_range_def rows_def no_empty_label_def assigned_rows_def
      reevaluate_centers_def Zero_def center_row_def center_coeff_def)


section \<open>Allocation to the nearest candidate\<close>

lemma minCoeff_visit_first:
  "vs = drop i ws \<Longrightarrow> i \<le> length ws \<Longrightarrow> ri < i \<Longrightarrow> res = ws ! ri \<Longrightarrow>
   \<forall>p<i. ws ! ri \<le> ws ! p \<Longrightarrow> \<forall>p<ri. ws ! ri < ws ! p \<Longrightarrow>
   minCoeff_visit res ri i vs < length ws
   \<and> (\<forall>p<length ws. ws ! minCoeff_visit res ri i vs \<le> ws ! p)
   \<and> (\<forall>p<minCoeff_visit res ri i vs. ws ! minCoeff_visit res ri i vs < ws ! p)"
proof (induction vs arbitrary: res ri i)
  case Nil
  then have "i = length ws" by simp
  then show ?case using Nil by simp
next
  case (Cons v vs)
  have i: "i < length ws"
    using Cons.prems(1,2) by (metis drop_all le_neq_implies_less list.distinct(1) order_refl)
  have v: "v = ws ! i" and vs: "vs = drop (Suc i) ws"
    using Cons.prems(1) i by (simp_all add: Cons_nth_drop_Suc [symmetric])
  show ?case
  proof (cases "v < res")
    case True
    have a: "\<forall>p<Suc i. ws ! i \<le> ws ! p"
    proof (intro allI impI)
      fix p assume "p < Suc i"
      then consider "p = i" | "p < i" by linarith
      then show "ws ! i \<le> ws ! p"
      proof cases
        case 1 then show ?thesis by simp
      next
        case 2
        then have "ws ! ri \<le> ws ! p" using Cons.prems(5) by simp
        then show ?thesis using True v Cons.prems(4) by simp
      qed
    qed
    have b: "\<forall>p<i. ws ! i < ws ! p"
    proof (intro allI impI)
      fix p assume "p < i"
      then have "ws ! ri \<le> ws ! p" using Cons.prems(5) by simp
      then show "ws ! i < ws ! p" using True v Cons.prems(4) by simp
    qed
    have "minCoeff_visit v i (Suc i) vs < length ws
          \<and> (\<forall>p<length ws. ws ! minCoeff_visit v i (Suc i) vs \<le> ws ! p)
          \<and> (\<forall>p<minCoeff_visit v i (Suc i) vs. ws ! minCoeff_visit v i (Suc i) vs < ws ! p)"
      using vs i v a b by (intro Cons.IH) simp_all
    then show ?thesis using True by simp
  next
    case False
    have a: "\<forall>p<Suc i. ws ! ri \<le> ws ! p"
    proof (intro allI impI)
      fix p assume "p < Suc i"
      then consider "p = i" | "p < i" by linarith
      then show "ws ! ri \<le> ws ! p"
      proof cases
        case 1 then show ?thesis using False v Cons.prems(4) by simp
      next
        case 2 then show ?thesis using Cons.prems(5) by simp
      qed
    qed
    have "minCoeff_visit res ri (Suc i) vs < length ws
          \<and> (\<forall>p<length ws. ws ! minCoeff_visit res ri (Suc i) vs \<le> ws ! p)
          \<and> (\<forall>p<minCoeff_visit res ri (Suc i) vs.
                ws ! minCoeff_visit res ri (Suc i) vs < ws ! p)"
      using vs i Cons.prems(3,4,6) a by (intro Cons.IH) simp_all
    then show ?thesis using False by simp
  qed
qed

lemma minCoeff_first:
  assumes "ws \<noteq> []"
  shows "\<exists>r. minCoeff ws = Inr r \<and> r < length ws
           \<and> (\<forall>p<length ws. ws ! r \<le> ws ! p) \<and> (\<forall>p<r. ws ! r < ws ! p)"
proof -
  obtain v vs where ws: "ws = v # vs" using assms by (cases ws) auto
  have "minCoeff_visit v 0 1 vs < length ws
        \<and> (\<forall>p<length ws. ws ! minCoeff_visit v 0 1 vs \<le> ws ! p)
        \<and> (\<forall>p<minCoeff_visit v 0 1 vs. ws ! minCoeff_visit v 0 1 vs < ws ! p)"
    using ws by (intro minCoeff_visit_first) simp_all
  then show ?thesis using ws by (simp add: minCoeff_def)
qed

lemma rowwise_norm_euclidean:
  assumes "length x = length y"
  shows "rowwise_norm (neg_plus x y) = euclidean x y"
proof -
  have "sum_list (map (\<lambda>v. v * v) (map2 (\<lambda>a b. - a + b) x y))
          = (\<Sum>i<length x. (x ! i - y ! i)\<^sup>2)"
    using assms
    by (simp add: sum_list_sum_nth atLeast0LessThan power2_eq_square algebra_simps)
  then show ?thesis
    by (simp add: rowwise_norm_def squaredNorm_def neg_plus_def euclidean_def)
qed

lemma active_indices_candidates:
  "set (active_indices mu no_zero) = {i. is_candidate mu no_zero i}"
  by (auto simp: active_indices_def is_candidate_def isZero_def list_all_iff list_ex_iff)

lemma active_indices_increasing: "sorted_wrt (<) (active_indices mu no_zero)"
  unfolding active_indices_def by (intro sorted_wrt_filter) simp

lemma mapM_nth:
  "mapM f xs = Inr ys \<Longrightarrow> length ys = length xs \<and> (\<forall>j<length xs. f (xs ! j) = Inr (ys ! j))"
proof (induction xs arbitrary: ys)
  case Nil
  then show ?case by simp
next
  case (Cons x xs)
  then obtain y ys' where "f x = Inr y" "mapM f xs = Inr ys'" "ys = y # ys'"
    by (auto split: sum.splits)
  then show ?case using Cons.IH [of ys'] by (auto simp: nth_Cons')
qed

lemma mapM_succeeds:
  "\<forall>x\<in>set xs. \<exists>y. f x = Inr y \<Longrightarrow> \<exists>ys. mapM f xs = Inr ys"
  by (induction xs) auto

lemma nearest_first_minimum:
  assumes act: "sorted_wrt (<) act" "act \<noteq> []" "\<forall>a\<in>set act. a < rows mu"
    and shape: "\<forall>a\<in>set act. length (row_list mu ! a) = length x"
  shows "\<exists>a\<in>set act. nearest mu act x = Inr (int a)
           \<and> (\<forall>b\<in>set act. euclidean x (row_list mu ! a) \<le> euclidean x (row_list mu ! b))
           \<and> (\<forall>b\<in>set act. b < a \<longrightarrow>
                 euclidean x (row_list mu ! a) < euclidean x (row_list mu ! b))"
proof -
  let ?ws = "distances_row mu act x"
  have len: "length ?ws = length act" by (simp add: distances_row_def)
  have val: "?ws ! p = euclidean x (row_list mu ! (act ! p))" if "p < length act" for p
    using that shape by (simp add: distances_row_def rowwise_norm_euclidean)
  have "?ws \<noteq> []" using act(2) len by auto
  then obtain r where r: "minCoeff ?ws = Inr r" "r < length ?ws"
    and least: "\<forall>p<length ?ws. ?ws ! r \<le> ?ws ! p" and first: "\<forall>p<r. ?ws ! r < ?ws ! p"
    using minCoeff_first by blast
  have rl: "r < length act" using r(2) len by simp
  have chosen: "nearest mu act x = Inr (int (act ! r))"
    using r(1) by (simp add: nearest_def)
  have le: "euclidean x (row_list mu ! (act ! r)) \<le> euclidean x (row_list mu ! b)"
    if "b \<in> set act" for b
  proof -
    from that obtain p where p: "p < length act" "act ! p = b"
      unfolding in_set_conv_nth by blast
    have "?ws ! r \<le> ?ws ! p" using least p(1) len by simp
    then show ?thesis using val [OF rl] val [OF p(1)] p(2) by simp
  qed
  have less: "euclidean x (row_list mu ! (act ! r)) < euclidean x (row_list mu ! b)"
    if "b \<in> set act" "b < act ! r" for b
  proof -
    from that(1) obtain p where p: "p < length act" "act ! p = b"
      unfolding in_set_conv_nth by blast
    have "p < r"
    proof (rule ccontr)
      assume "\<not> p < r"
      then consider "r = p" | "r < p" by linarith
      then have "act ! r \<le> act ! p"
      proof cases
        case 1 then show ?thesis by simp
      next
        case 2
        then have "act ! r < act ! p" using act(1) p(1) by (simp add: sorted_wrt_nth_less)
        then show ?thesis by simp
      qed
      then show False using that(2) p(2) by simp
    qed
    then have "?ws ! r < ?ws ! p" using first by simp
    then show ?thesis using val [OF rl] val [OF p(1)] p(2) by simp
  qed
  have mem: "act ! r \<in> set act" using rl by simp
  show ?thesis
  proof (intro bexI [of _ "act ! r"] conjI ballI impI)
    show "nearest mu act x = Inr (int (act ! r))" by (rule chosen)
  next
    fix b assume "b \<in> set act"
    then show "euclidean x (row_list mu ! (act ! r)) \<le> euclidean x (row_list mu ! b)" by (rule le)
  next
    fix b assume "b \<in> set act" "b < act ! r"
    then show "euclidean x (row_list mu ! (act ! r)) < euclidean x (row_list mu ! b)"
      by (rule less)
  next
    show "act ! r \<in> set act" by (rule mem)
  qed
qed

text \<open>
  Claim C6: for well-formed \<open>X\<close> and \<open>mu\<close> of the same width with at least two candidate
  centers, \<^verbatim>\<open>allocate_clusters\<close> gives every point the index of a candidate at minimum
  Euclidean distance, and every candidate with a lower index is strictly farther away:
  among candidates at equal distance the lowest index is chosen.
\<close>

theorem allocate_clusters_nearest:
  assumes "wf_matrix X" and "wf_matrix mu" and "cols X = cols mu"
    and "2 \<le> length (active_indices mu no_zero)"
  shows "\<exists>mu_ind. allocate_clusters X mu no_zero = Inr mu_ind
           \<and> length mu_ind = rows X
           \<and> (\<forall>j<rows X. \<exists>a. mu_ind ! j = int a \<and> is_candidate mu no_zero a
                 \<and> (\<forall>b. is_candidate mu no_zero b \<longrightarrow>
                        euclidean (row_list X ! j) (row_list mu ! a)
                          \<le> euclidean (row_list X ! j) (row_list mu ! b))
                 \<and> (\<forall>b. is_candidate mu no_zero b \<and> b < a \<longrightarrow>
                        euclidean (row_list X ! j) (row_list mu ! a)
                          < euclidean (row_list X ! j) (row_list mu ! b)))"
proof -
  let ?act = "active_indices mu no_zero"
  have cand: "set ?act = {i. is_candidate mu no_zero i}"
    by (rule active_indices_candidates)
  have inc: "sorted_wrt (<) ?act" by (rule active_indices_increasing)
  have ne: "?act \<noteq> []" using assms(4) by auto
  have bound: "\<forall>a\<in>set ?act. a < rows mu" using cand by (simp add: is_candidate_def)
  have near: "\<exists>a\<in>set ?act. nearest mu ?act x = Inr (int a)
           \<and> (\<forall>b\<in>set ?act. euclidean x (row_list mu ! a) \<le> euclidean x (row_list mu ! b))
           \<and> (\<forall>b\<in>set ?act. b < a \<longrightarrow>
                 euclidean x (row_list mu ! a) < euclidean x (row_list mu ! b))"
    if "x \<in> set (row_list X)" for x
  proof -
    have "length x = cols mu" using that assms(1,3) by (simp add: wf_matrix_def list_all_iff)
    then have "\<forall>a\<in>set ?act. length (row_list mu ! a) = length x"
      using bound assms(2) by (simp add: wf_matrix_def list_all_length rows_def)
    then show ?thesis using inc ne bound by (intro nearest_first_minimum)
  qed
  then have "\<forall>x\<in>set (row_list X). \<exists>y. nearest mu ?act x = Inr y" by blast
  then obtain mu_ind where run: "mapM (nearest mu ?act) (row_list X) = Inr mu_ind"
    using mapM_succeeds by blast
  have res: "allocate_clusters X mu no_zero = Inr mu_ind"
    using run assms(3,4) by (simp add: allocate_clusters_def)
  have len: "length mu_ind = rows X"
    and each: "\<forall>j<rows X. nearest mu ?act (row_list X ! j) = Inr (mu_ind ! j)"
    using mapM_nth [OF run] by (simp_all add: rows_def)
  have "\<exists>a. mu_ind ! j = int a \<and> is_candidate mu no_zero a
                 \<and> (\<forall>b. is_candidate mu no_zero b \<longrightarrow>
                        euclidean (row_list X ! j) (row_list mu ! a)
                          \<le> euclidean (row_list X ! j) (row_list mu ! b))
                 \<and> (\<forall>b. is_candidate mu no_zero b \<and> b < a \<longrightarrow>
                        euclidean (row_list X ! j) (row_list mu ! a)
                          < euclidean (row_list X ! j) (row_list mu ! b))"
    if j: "j < rows X" for j
  proof -
    have "row_list X ! j \<in> set (row_list X)" using j by (simp add: rows_def)
    from near [OF this] obtain a where
      a: "a \<in> set ?act" "nearest mu ?act (row_list X ! j) = Inr (int a)"
      and least: "\<forall>b\<in>set ?act. euclidean (row_list X ! j) (row_list mu ! a)
                     \<le> euclidean (row_list X ! j) (row_list mu ! b)"
      and first: "\<forall>b\<in>set ?act. b < a \<longrightarrow> euclidean (row_list X ! j) (row_list mu ! a)
                     < euclidean (row_list X ! j) (row_list mu ! b)"
      by blast
    have "mu_ind ! j = int a" using a(2) each j by simp
    then show ?thesis using a(1) least first cand by blast
  qed
  then show ?thesis using res len by blast
qed

theorem allocate_clusters_nearest_witness:
  "wf_matrix \<lparr>cols = 1, row_list = [[1]]\<rparr> \<and> wf_matrix \<lparr>cols = 1, row_list = [[0], [2]]\<rparr>
   \<and> cols \<lparr>cols = 1, row_list = [[1]]\<rparr> = cols \<lparr>cols = 1, row_list = [[0], [2]]\<rparr>
   \<and> 2 \<le> length (active_indices \<lparr>cols = 1, row_list = [[0], [2]]\<rparr> False)
   \<and> allocate_clusters \<lparr>cols = 1, row_list = [[1]]\<rparr> \<lparr>cols = 1, row_list = [[0], [2]]\<rparr> False
        = Inr [0]
   \<and> (\<exists>mu_ind. allocate_clusters \<lparr>cols = 1, row_list = [[1]]\<rparr>
                   \<lparr>cols = 1, row_list = [[0], [2]]\<rparr> False = Inr mu_ind
          \<and> (\<exists>a. mu_ind ! 0 = int a
                 \<and> is_candidate \<lparr>cols = 1, row_list = [[0], [2]]\<rparr> False a
                 \<and> (\<forall>b. is_candidate \<lparr>cols = 1, row_list = [[0], [2]]\<rparr> False b \<longrightarrow>
                        euclidean [1] (row_list \<lparr>cols = 1, row_list = [[0], [2]]\<rparr> ! a)
                          \<le> euclidean [1] (row_list \<lparr>cols = 1, row_list = [[0], [2]]\<rparr> ! b))))"
proof -
  let ?X = "\<lparr>cols = 1, row_list = [[1]]\<rparr>"
  let ?mu = "\<lparr>cols = 1, row_list = [[0], [2]]\<rparr>"
  have h1: "wf_matrix ?X" and h2: "wf_matrix ?mu" by (simp_all add: wf_matrix_def)
  have h3: "cols ?X = cols ?mu" by simp
  have h4: "2 \<le> length (active_indices ?mu False)"
    by (simp add: active_indices_def rows_def)
  have computed: "allocate_clusters ?X ?mu False = Inr [0]"
    by (simp add: allocate_clusters_def active_indices_def rows_def nearest_def
        distances_row_def minCoeff_def rowwise_norm_def squaredNorm_def neg_plus_def upt_rec)
  have "\<exists>mu_ind. allocate_clusters ?X ?mu False = Inr mu_ind
          \<and> (\<exists>a. mu_ind ! 0 = int a \<and> is_candidate ?mu False a
                 \<and> (\<forall>b. is_candidate ?mu False b \<longrightarrow>
                        euclidean [1] (row_list ?mu ! a) \<le> euclidean [1] (row_list ?mu ! b)))"
  proof -
    obtain mu_ind where run: "allocate_clusters ?X ?mu False = Inr mu_ind"
      and each: "\<forall>j<rows ?X. \<exists>a. mu_ind ! j = int a \<and> is_candidate ?mu False a
                 \<and> (\<forall>b. is_candidate ?mu False b \<longrightarrow>
                        euclidean (row_list ?X ! j) (row_list ?mu ! a)
                          \<le> euclidean (row_list ?X ! j) (row_list ?mu ! b))
                 \<and> (\<forall>b. is_candidate ?mu False b \<and> b < a \<longrightarrow>
                        euclidean (row_list ?X ! j) (row_list ?mu ! a)
                          < euclidean (row_list ?X ! j) (row_list ?mu ! b))"
      using allocate_clusters_nearest [OF h1 h2 h3 h4] by blast
    have "0 < rows ?X" by (simp add: rows_def)
    with each obtain a where "mu_ind ! 0 = int a" "is_candidate ?mu False a"
      "\<forall>b. is_candidate ?mu False b \<longrightarrow>
          euclidean (row_list ?X ! 0) (row_list ?mu ! a)
            \<le> euclidean (row_list ?X ! 0) (row_list ?mu ! b)"
      by blast
    then show ?thesis using run by auto
  qed
  then show ?thesis using h1 h2 h3 h4 computed by blast
qed



section \<open>The loop of \<^verbatim>\<open>find_centers\<close>\<close>

text \<open>
  Claim C3: an iteration \<open>i\<close> of the loop that does not stop passes
  \<open>min(reg, reg * i/20)\<close> to the center update; for \<open>reg \<ge> 0\<close>, the domain the
  specification gives \<open>reg\<close>, this is 0 at iteration 0 and \<open>reg\<close> from iteration 20 on.
\<close>

theorem annealed_reg_schedule:
  "(i < count_limit \<and> \<not> (allocate mu = mu_ind_old \<and> 20 < i) \<longrightarrow>
      iterate_centers allocate reevaluate reg i mu mu_ind mu_ind_old
        = iterate_centers allocate reevaluate reg (Suc i)
            (reevaluate (allocate mu) (min reg (reg * real i / 20))) (allocate mu) (allocate mu))
   \<and> annealed_reg reg i = min reg (reg * real i / 20)
   \<and> (0 \<le> reg \<longrightarrow> annealed_reg reg 0 = 0 \<and> (20 \<le> i \<longrightarrow> annealed_reg reg i = reg))"
proof (intro conjI impI)
  assume "i < count_limit \<and> \<not> (allocate mu = mu_ind_old \<and> 20 < i)"
  then show "iterate_centers allocate reevaluate reg i mu mu_ind mu_ind_old
        = iterate_centers allocate reevaluate reg (Suc i)
            (reevaluate (allocate mu) (min reg (reg * real i / 20))) (allocate mu) (allocate mu)"
    by (subst iterate_centers.simps) (auto simp: annealed_reg_def Let_def)
next
  show "annealed_reg reg i = min reg (reg * real i / 20)"
    by (simp add: annealed_reg_def)
next
  assume "0 \<le> reg"
  then show "annealed_reg reg 0 = 0" by (simp add: annealed_reg_def)
next
  assume reg: "0 \<le> reg" and i: "20 \<le> i"
  have "1 \<le> real i / 20" using i by simp
  then have "reg * 1 \<le> reg * (real i / 20)" using reg by (intro mult_left_mono)
  then show "annealed_reg reg i = reg" by (simp add: annealed_reg_def)
qed

theorem annealed_reg_schedule_witness:
  "iterate_centers (\<lambda>m. m + 1) (\<lambda>v r. v) 4 5 (7::nat) 0 (0::nat)
     = iterate_centers (\<lambda>m. m + 1) (\<lambda>v r. v) 4 6 8 8 8
   \<and> annealed_reg 4 5 = 1 \<and> annealed_reg 4 0 = 0 \<and> annealed_reg 4 25 = 4"
proof -
  have "(5::nat) < count_limit" by (simp add: count_limit_def)
  then show ?thesis
    using annealed_reg_schedule [of 5 "\<lambda>m. m + 1" "7::nat" "0::nat" "\<lambda>v r. v" 4 0]
      annealed_reg_schedule [of 0 "\<lambda>m. m + 1" "7::nat" "0::nat" "\<lambda>v r. v" 4 0]
      annealed_reg_schedule [of 25 "\<lambda>m. m + 1" "7::nat" "0::nat" "\<lambda>v r. v" 4 0]
    by simp
qed

lemma iterate_centers_from:
  assumes "i \<le> count_limit"
    and "\<forall>j<i. \<not> converged_at allocate reevaluate reg mu0 old0 j"
    and "state_before allocate reevaluate reg mu0 old0 i = (mu, mu_ind_old)"
    and "i = 0 \<or> mu_ind = mu_ind_old"
  shows "\<exists>n. i \<le> n \<and> n \<le> count_limit
           \<and> (\<forall>j<n. \<not> converged_at allocate reevaluate reg mu0 old0 j)
           \<and> (n < count_limit \<longrightarrow> converged_at allocate reevaluate reg mu0 old0 n)
           \<and> iterate_centers allocate reevaluate reg i mu mu_ind mu_ind_old
               = (n, fst (state_before allocate reevaluate reg mu0 old0 n),
                  if n < count_limit
                  then allocate (fst (state_before allocate reevaluate reg mu0 old0 n))
                  else if n = 0 then mu_ind
                  else snd (state_before allocate reevaluate reg mu0 old0 n))"
  using assms
proof (induction "count_limit - i" arbitrary: i mu mu_ind mu_ind_old)
  case 0
  then have i: "i = count_limit" by simp
  have "iterate_centers allocate reevaluate reg i mu mu_ind mu_ind_old = (i, mu, mu_ind)"
    using i by (subst iterate_centers.simps) simp
  moreover have "mu_ind = (if i = 0 then mu_ind else mu_ind_old)" using "0.prems"(4) by auto
  ultimately show ?case
    using i "0.prems"(2,3) by (intro exI [of _ i]) auto
next
  case (Suc d)
  then have i: "i < count_limit" by simp
  let ?S = "state_before allocate reevaluate reg mu0 old0"
  show ?case
  proof (cases "allocate mu = mu_ind_old \<and> 20 < i")
    case True
    then have conv: "converged_at allocate reevaluate reg mu0 old0 i"
      using Suc.prems(3) by (simp add: converged_at_def)
    have "iterate_centers allocate reevaluate reg i mu mu_ind mu_ind_old = (i, mu, allocate mu)"
      using i True by (subst iterate_centers.simps) (simp add: Let_def)
    then show ?thesis
      using i conv Suc.prems(2,3) by (intro exI [of _ i]) auto
  next
    case False
    then have nconv: "\<not> converged_at allocate reevaluate reg mu0 old0 i"
      using Suc.prems(3) by (auto simp: converged_at_def)
    let ?mu' = "reevaluate (allocate mu) (annealed_reg reg i)"
    have step: "iterate_centers allocate reevaluate reg i mu mu_ind mu_ind_old
                  = iterate_centers allocate reevaluate reg (Suc i) ?mu' (allocate mu) (allocate mu)"
      using i False by (subst iterate_centers.simps) (auto simp: Let_def)
    have d: "d = count_limit - Suc i" using Suc.hyps(2) by simp
    have le: "Suc i \<le> count_limit" using i by simp
    have before: "\<forall>j<Suc i. \<not> converged_at allocate reevaluate reg mu0 old0 j"
      using Suc.prems(2) nconv less_Suc_eq by auto
    have next_state: "?S (Suc i) = (?mu', allocate mu)"
      using Suc.prems(3) by (simp add: Let_def)
    have "\<exists>n. Suc i \<le> n \<and> n \<le> count_limit
           \<and> (\<forall>j<n. \<not> converged_at allocate reevaluate reg mu0 old0 j)
           \<and> (n < count_limit \<longrightarrow> converged_at allocate reevaluate reg mu0 old0 n)
           \<and> iterate_centers allocate reevaluate reg (Suc i) ?mu' (allocate mu) (allocate mu)
               = (n, fst (?S n),
                  if n < count_limit then allocate (fst (?S n))
                  else if n = 0 then allocate mu else snd (?S n))"
      using d le before next_state by (intro Suc.hyps(1)) simp_all
    then obtain n where n: "Suc i \<le> n" "n \<le> count_limit"
      "\<forall>j<n. \<not> converged_at allocate reevaluate reg mu0 old0 j"
      "n < count_limit \<longrightarrow> converged_at allocate reevaluate reg mu0 old0 n"
      and run: "iterate_centers allocate reevaluate reg (Suc i) ?mu' (allocate mu) (allocate mu)
               = (n, fst (?S n),
                  if n < count_limit then allocate (fst (?S n))
                  else if n = 0 then allocate mu else snd (?S n))"
      by blast
    have "n \<noteq> 0" using n(1) by simp
    then have "iterate_centers allocate reevaluate reg i mu mu_ind mu_ind_old
               = (n, fst (?S n),
                  if n < count_limit then allocate (fst (?S n))
                  else if n = 0 then mu_ind else snd (?S n))"
      using step run by simp
    moreover have "i \<le> n" using n(1) by simp
    ultimately show ?thesis using n(2,3,4) by blast
  qed
qed

text \<open>
  Claim C4: the loop stops at an iteration index \<open>n\<close> of at most 1000, so it allocates
  and updates at most 1000 times. It stops before the cap exactly when some iteration
  index below 1000 and greater than 20 computes the assignment of the previous iteration,
  and then at the first such index. In both cases it returns the centers it holds at
  index \<open>n\<close> and the last assignment it computed: the cap is a result like the other.
\<close>

theorem iterate_centers_exit:
  "\<exists>n. n \<le> count_limit
     \<and> (n < count_limit) = (\<exists>j<count_limit. converged_at allocate reevaluate reg mu mu_ind_old j)
     \<and> (n < count_limit \<longrightarrow> converged_at allocate reevaluate reg mu mu_ind_old n)
     \<and> (\<forall>j<n. \<not> converged_at allocate reevaluate reg mu mu_ind_old j)
     \<and> iterate_centers allocate reevaluate reg 0 mu mu_ind mu_ind_old
         = (n, fst (state_before allocate reevaluate reg mu mu_ind_old n),
            if n < count_limit
            then allocate (fst (state_before allocate reevaluate reg mu mu_ind_old n))
            else snd (state_before allocate reevaluate reg mu mu_ind_old n))"
proof -
  have "\<exists>n. 0 \<le> n \<and> n \<le> count_limit
           \<and> (\<forall>j<n. \<not> converged_at allocate reevaluate reg mu mu_ind_old j)
           \<and> (n < count_limit \<longrightarrow> converged_at allocate reevaluate reg mu mu_ind_old n)
           \<and> iterate_centers allocate reevaluate reg 0 mu mu_ind mu_ind_old
               = (n, fst (state_before allocate reevaluate reg mu mu_ind_old n),
                  if n < count_limit
                  then allocate (fst (state_before allocate reevaluate reg mu mu_ind_old n))
                  else if n = 0 then mu_ind
                  else snd (state_before allocate reevaluate reg mu mu_ind_old n))"
    by (intro iterate_centers_from) simp_all
  then obtain n where n: "n \<le> count_limit"
    "\<forall>j<n. \<not> converged_at allocate reevaluate reg mu mu_ind_old j"
    "n < count_limit \<longrightarrow> converged_at allocate reevaluate reg mu mu_ind_old n"
    and run: "iterate_centers allocate reevaluate reg 0 mu mu_ind mu_ind_old
               = (n, fst (state_before allocate reevaluate reg mu mu_ind_old n),
                  if n < count_limit
                  then allocate (fst (state_before allocate reevaluate reg mu mu_ind_old n))
                  else if n = 0 then mu_ind
                  else snd (state_before allocate reevaluate reg mu mu_ind_old n))"
    by blast
  have "(n < count_limit) = (\<exists>j<count_limit. converged_at allocate reevaluate reg mu mu_ind_old j)"
  proof
    assume "n < count_limit"
    then show "\<exists>j<count_limit. converged_at allocate reevaluate reg mu mu_ind_old j"
      using n(3) by blast
  next
    assume "\<exists>j<count_limit. converged_at allocate reevaluate reg mu mu_ind_old j"
    then obtain j where j: "j < count_limit" "converged_at allocate reevaluate reg mu mu_ind_old j"
      by blast
    then have "\<not> j < n" using n(2) by blast
    then show "n < count_limit" using j(1) by simp
  qed
  moreover have "n = 0 \<longrightarrow> n < count_limit" by (simp add: count_limit_def)
  ultimately show ?thesis using n run by (intro exI [of _ n]) auto
qed

text \<open>
  A run of the loop on the two points 1 and 3 with two centers and \<open>reg = 0\<close>: the seeds
  are the two points, every iteration assigns each point to its own center and leaves the
  centers where they are, and the loop stops at index 21.
\<close>

lemma two_points_allocate:
  "allocate_step two_points no_zero
     (Inr two_points) = Inr [0, 1]"
  by (simp add: two_points_def allocate_step_def allocate_clusters_def active_indices_def
      rows_def isZero_def
      nearest_def distances_row_def minCoeff_def rowwise_norm_def squaredNorm_def neg_plus_def
      upt_rec)

lemma two_points_reevaluate:
  "reevaluate_step two_points 2 (Inr [0, 1]) (annealed_reg 0 n)
     = Inr two_points"
  by (simp add: two_points_def reevaluate_step_def reevaluate_centers_def Zero_def center_row_def
      center_coeff_def annealed_reg_def numeral_2_eq_2)

lemma two_points_state:
  "state_before (allocate_step two_points no_zero)
     (reevaluate_step two_points 2) 0
     (Inr two_points) old (Suc n)
   = (Inr two_points, Inr [0, 1])"
proof (induction n)
  case 0
  show ?case by (simp add: two_points_allocate two_points_reevaluate)
next
  case (Suc n)
  then show ?case by (simp add: two_points_allocate two_points_reevaluate)
qed

lemma two_points_converged:
  "converged_at (allocate_step two_points no_zero)
     (reevaluate_step two_points 2) 0
     (Inr two_points) old j = (20 < j)"
proof (cases j)
  case 0
  then show ?thesis by (simp add: converged_at_def)
next
  case (Suc n)
  then show ?thesis
    by (simp add: converged_at_def two_points_state two_points_allocate del: state_before.simps)
qed

theorem iterate_centers_exit_witness:
  "iterate_centers (allocate_step two_points True)
     (reevaluate_step two_points 2) 0 0
     (Inr two_points) (Inr [1, 1]) (Inr [0, 0])
   = (21, Inr two_points, Inr [0, 1])"
proof -
  let ?X = two_points
  let ?conv = "converged_at (allocate_step ?X True) (reevaluate_step ?X 2) 0 (Inr ?X) (Inr [0, 0])"
  let ?S = "state_before (allocate_step ?X True) (reevaluate_step ?X 2) 0 (Inr ?X) (Inr [0, 0])"
  obtain n where n: "(n < count_limit) = (\<exists>j<count_limit. ?conv j)"
    "n < count_limit \<longrightarrow> ?conv n" "\<forall>j<n. \<not> ?conv j"
    and run: "iterate_centers (allocate_step ?X True) (reevaluate_step ?X 2) 0 0
                (Inr ?X) (Inr [1, 1]) (Inr [0, 0])
              = (n, fst (?S n),
                 if n < count_limit then allocate_step ?X True (fst (?S n)) else snd (?S n))"
    using iterate_centers_exit
      [of "allocate_step ?X True" "reevaluate_step ?X 2" 0 "Inr ?X" "Inr [0, 0]" "Inr [1, 1]"]
    by blast
  have "?conv 21" by (simp add: two_points_converged)
  moreover have "(21::nat) < count_limit" by (simp add: count_limit_def)
  ultimately have below: "n < count_limit" using n(1) by blast
  then have "20 < n" using n(2) by (simp add: two_points_converged)
  moreover have "\<not> 21 < n" using n(3) \<open>?conv 21\<close> by blast
  ultimately have "n = 21" by simp
  moreover have "?S 21 = (Inr ?X, Inr [0, 1])"
    using two_points_state [of True "Inr [0, 0]" 20] by simp
  ultimately show ?thesis
    using run below by (simp add: two_points_allocate)
qed


section \<open>The stability of a labelling against itself\<close>

lemma draw_pair_usable:
  "0 < usable_pairs n rng \<Longrightarrow>
   \<exists>ij rng'. draw_pair n rng = Inr (ij, rng') \<and> usable_pairs n rng' = usable_pairs n rng - 1"
proof (induction n rng rule: draw_pair.induct)
  case (1 intSize)
  then show ?case by (simp add: usable_pairs_def)
next
  case (2 intSize a)
  then show ?case by (simp add: usable_pairs_def)
next
  case (3 intSize a b rng)
  show ?case
  proof (cases "a mod intSize = b mod intSize")
    case True
    then have "usable_pairs intSize (a # b # rng) = usable_pairs intSize rng"
      by (simp add: usable_pairs_def)
    then show ?thesis using 3 True by simp
  next
    case False
    then have "usable_pairs intSize (a # b # rng) = Suc (usable_pairs intSize rng)"
      by (simp add: usable_pairs_def)
    then show ?thesis using False by simp
  qed
qed

lemma count_stable_identical:
  "num \<le> usable_pairs (length c) rng \<Longrightarrow>
   \<exists>rng'. count_stable num c c stability rng = Inr (stability + real num, rng')"
proof (induction num arbitrary: stability rng)
  case 0
  show ?case by simp
next
  case (Suc num)
  then have "0 < usable_pairs (length c) rng" by simp
  then obtain ij rng1 where draw: "draw_pair (length c) rng = Inr (ij, rng1)"
    and left: "usable_pairs (length c) rng1 = usable_pairs (length c) rng - 1"
    using draw_pair_usable by blast
  obtain i j where ij: "ij = (i, j)" by (cases ij)
  have "num \<le> usable_pairs (length c) rng1" using left Suc.prems by simp
  then obtain rng' where
    "count_stable num c c (stability + 1) rng1 = Inr (stability + 1 + real num, rng')"
    using Suc.IH by blast
  then have "count_stable (Suc num) c c stability rng = Inr (stability + real (Suc num), rng')"
    using draw ij by (simp add: add.assoc add.commute)
  then show ?case by blast
qed

lemma populate_succeeds:
  "length c1 \<le> length c2 \<Longrightarrow> list_all (\<lambda>l. 0 \<le> l \<and> l < int k) c1 \<Longrightarrow>
   list_all (\<lambda>l. 0 \<le> l \<and> l < int k) c2 \<Longrightarrow>
   \<exists>q1 q2. populate k sz c1 c2 p1 p2 = Inr (q1, q2)"
proof (induction c1 arbitrary: c2 p1 p2)
  case Nil
  show ?case by simp
next
  case (Cons a c1)
  then obtain b c2' where c2: "c2 = b # c2'" by (cases c2) auto
  then show ?case using Cons by simp
qed

lemma cluster_distance_same:
  assumes "2 \<le> length c" and "list_all (\<lambda>l. 0 \<le> l \<and> l < int k) c"
    and "indice_num \<le> usable_pairs (length c) rng"
  shows "\<exists>population1 population2 stability rng'.
           populate k (real (length c)) c c (replicate k 0) (replicate k 0)
             = Inr (population1, population2)
           \<and> count_stable indice_num c c 0 rng = Inr (stability, rng')
           \<and> stability / real indice_num = 1
           \<and> cluster_distance c c k rng
               = (if 1 - chance_level (real (length c)) population1 population2 = 0
                  then Inl NonFinite else Inr (1, rng'))"
proof -
  obtain population1 population2 where
    pop: "populate k (real (length c)) c c (replicate k 0) (replicate k 0)
            = Inr (population1, population2)"
    using populate_succeeds [of c c k] assms(2) by blast
  obtain rng' where
    count: "count_stable indice_num c c 0 rng = Inr (0 + real indice_num, rng')"
    using count_stable_identical [OF assms(3)] by blast
  have rate: "(0 + real indice_num) / real indice_num = 1"
    by (simp add: indice_num_def)
  have size: "c \<noteq> []" "\<not> length c < 2" using assms(1) by auto
  have "cluster_distance c c k rng
          = (if 1 - chance_level (real (length c)) population1 population2 = 0
             then Inl NonFinite else Inr (1, rng'))"
    using pop count size rate by (simp add: cluster_distance_def Let_def)
  then show ?thesis using pop count rate by blast
qed

text \<open>
  Claim C8: for a label vector of length at least 2 with entries in \<open>[0, k)\<close>, compared
  with itself, and a generator that supplies 10000 pairs of distinct indices, every one of
  the 10000 draws counts as an agreement, so the raw agreement rate is exactly 1, and
  \<^verbatim>\<open>cluster_distance\<close> returns 1 unless the chance level is 1, where the quotient of
  line 304 has denominator 0.
\<close>

theorem cluster_distance_identical:
  assumes "2 \<le> length c" and "list_all (\<lambda>l. 0 \<le> l \<and> l < int k) c"
    and "indice_num \<le> usable_pairs (length c) rng"
  shows "\<exists>population1 population2 stability rng'.
           populate k (real (length c)) c c (replicate k 0) (replicate k 0)
             = Inr (population1, population2)
           \<and> count_stable indice_num c c 0 rng = Inr (stability, rng')
           \<and> stability / real indice_num = 1
           \<and> cluster_distance c c k rng
               = (if 1 - chance_level (real (length c)) population1 population2 = 0
                  then Inl NonFinite else Inr (1, rng'))"
  using assms by (rule cluster_distance_same)

lemma pairs_replicate: "pairs (concat (replicate n [a, b])) = replicate n (a, b)"
  by (induction n) simp_all

theorem cluster_distance_identical_witness:
  "2 \<le> length [0, 1, 1 :: int] \<and> list_all (\<lambda>l. 0 \<le> l \<and> l < int 3) [0, 1, 1]
   \<and> indice_num \<le> usable_pairs (length [0, 1, 1 :: int]) (concat (replicate 10000 [0, 1]))
   \<and> (\<exists>rng'. cluster_distance [0, 1, 1] [0, 1, 1] 3 (concat (replicate 10000 [0, 1]))
                = Inr (1, rng'))"
proof -
  let ?c = "[0, 1, 1 :: int]"
  let ?rng = "concat (replicate 10000 [0, 1 :: nat])"
  have h1: "2 \<le> length ?c" by simp
  have h2: "list_all (\<lambda>l. 0 \<le> l \<and> l < int 3) ?c" by simp
  have h3: "indice_num \<le> usable_pairs (length ?c) ?rng"
    by (simp add: usable_pairs_def pairs_replicate indice_num_def)
  obtain population1 population2 rng' where
    pop: "populate 3 (real (length ?c)) ?c ?c (replicate 3 0) (replicate 3 0)
            = Inr (population1, population2)"
    and dist: "cluster_distance ?c ?c 3 ?rng
               = (if 1 - chance_level (real (length ?c)) population1 population2 = 0
                  then Inl NonFinite else Inr (1, rng'))"
    using cluster_distance_identical [OF h1 h2 h3] by blast
  have computed: "populate 3 (real (length ?c)) ?c ?c (replicate 3 0) (replicate 3 0)
          = Inr ([1 / 3, 2 / 3, 0], [1 / 3, 2 / 3, 0])"
    by (simp add: numeral_3_eq_3)
  from pop [unfolded computed]
  have "population1 = [1 / 3, 2 / 3, 0]" "population2 = [1 / 3, 2 / 3, 0]"
    by blast+
  then have "chance_level (real (length ?c)) population1 population2 = 5 / 9"
    by (simp add: chance_level_def same_rate_def differ_rate_def)
  then have "cluster_distance ?c ?c 3 ?rng = Inr (1, rng')"
    using dist by simp
  then show ?thesis using h1 h2 h3 by blast
qed


section \<open>Row accesses of \<^verbatim>\<open>find_centers\<close>\<close>

lemma cumulate_key:
  "cumulate es i cum m = (cum', m') \<Longrightarrow> 0 \<le> cum \<Longrightarrow> cum = 0 \<or> cum \<in> fst ` set m \<Longrightarrow>
   0 \<le> cum' \<and> (cum' = 0 \<or> cum' \<in> fst ` set m')"
proof (induction es arbitrary: i cum m)
  case Nil
  then show ?case by simp
next
  case (Cons e es)
  show ?case
  proof (cases "e > 0")
    case True
    have step: "cumulate es (Suc i) (cum + e) (map_assign (cum + e) i m) = (cum', m')"
      using Cons.prems(1) True by simp
    have "0 \<le> cum + e" using True Cons.prems(2) by simp
    moreover have "cum + e \<in> fst ` set (map_assign (cum + e) i m)"
      by (simp add: map_assign_keys)
    ultimately show ?thesis using Cons.IH [OF step] by blast
  next
    case False
    then have step: "cumulate es (Suc i) cum m = (cum', m')" using Cons.prems(1) by simp
    show ?thesis using Cons.IH [OF step Cons.prems(2) Cons.prems(3)] .
  qed
qed

lemma element_from_vector_index:
  "\<exists>ret. element_from_vector RAND_MAX elements (r # rng) = Inr (ret, rng)
          \<and> (ret < length elements \<or> ret = 0)"
proof -
  obtain cum m where cm: "cumulate elements 0 0 [] = (cum, m)"
    by (cases "cumulate elements 0 0 []") auto
  let ?P = "\<lambda>v. v < length elements"
  have vals: "\<forall>kv\<in>set m. ?P (snd kv)"
    using cumulate_entries [OF cm, of ?P] by simp
  have key: "0 \<le> cum" "cum = 0 \<or> cum \<in> fst ` set m"
    using cumulate_key [OF cm] by simp_all
  let ?x = "(real r / real RAND_MAX) * cum"
  have x: "0 \<le> ?x" using key(1) by simp
  show ?thesis
  proof (cases "?x < cum")
    case True
    then have "cum \<in> fst ` set m" using key(2) x by auto
    then obtain v where kv: "(cum, v) \<in> set m" by auto
    have "upper_bound ?x m \<noteq> None"
    proof
      assume "upper_bound ?x m = None"
      then have "cum \<le> ?x" using kv by (rule upper_bound_None)
      then show False using True by linarith
    qed
    then obtain iter where it: "upper_bound ?x m = Some iter" by blast
    then have "?P (snd iter)" using upper_bound_mem vals by blast
    then show ?thesis
      using cm True it by (simp add: element_from_vector_def rand_def)
  next
    case False
    show ?thesis
    proof (cases "map_of m ?x")
      case None
      then show ?thesis
        using cm False by (simp add: element_from_vector_def rand_def map_subscript_def)
    next
      case (Some v)
      then have "(?x, v) \<in> set m" by (rule map_of_SomeD)
      then have "?P v" using vals by force
      then show ?thesis
        using cm False Some by (simp add: element_from_vector_def rand_def map_subscript_def)
    qed
  qed
qed

lemma element_from_vector_cases:
  "element_from_vector RAND_MAX elements rng = Inl RngExhausted
   \<or> (\<exists>ret rng'. element_from_vector RAND_MAX elements rng = Inr (ret, rng')
         \<and> (ret < length elements \<or> ret = 0))"
proof (cases rng)
  case Nil
  then show ?thesis
    by (simp add: element_from_vector_def rand_def split: prod.splits)
next
  case (Cons r rng')
  then show ?thesis using element_from_vector_index [of RAND_MAX elements r rng'] by blast
qed

lemma list_all_update: "list_all P xs \<Longrightarrow> P y \<Longrightarrow> list_all P (xs[i := y])"
  using set_update_subset_insert [of xs i y] by (auto simp: list_all_iff)


lemma assign_row_shape:
  assumes "assign_row mu i X j = Inr mu'" and "wf_matrix mu" and "wf_matrix X"
    and "cols mu = cols X"
  shows "wf_matrix mu' \<and> rows mu' = rows mu \<and> cols mu' = cols mu"
proof -
  have i: "i < rows mu" and j: "j < rows X"
    and mu': "mu' = mu\<lparr>row_list := (row_list mu)[i := row_list X ! j]\<rparr>"
    using assms(1) by (auto simp: assign_row_def split: if_splits)
  have "length (row_list X ! j) = cols mu"
    using j assms(3,4) by (simp add: wf_matrix_def rows_def list_all_length)
  then have "wf_matrix mu'"
    using assms(2) mu' by (simp add: wf_matrix_def list_all_update)
  then show ?thesis using mu' by (simp add: rows_def)
qed

lemma seed_rest_bounds:
  assumes "wf_matrix X" and "0 < rows X"
  shows "wf_matrix mu \<Longrightarrow> rows mu = k \<Longrightarrow> cols mu = cols X \<Longrightarrow> length dists = rows X \<Longrightarrow>
         0 < i \<Longrightarrow>
         seed_rest RAND_MAX X k i mu dists rng = Inl RngExhausted
         \<or> (\<exists>mu' rng'. seed_rest RAND_MAX X k i mu dists rng = Inr (mu', rng')
               \<and> wf_matrix mu' \<and> rows mu' = k \<and> cols mu' = cols X)"
proof (induction "k - i" arbitrary: i mu dists rng)
  case 0
  then have "\<not> i < k" by simp
  then show ?case using 0 by (subst seed_rest.simps) simp
next
  case (Suc d)
  then have i: "i < k" by simp
  let ?temp = "map (\<lambda>x. squaredNorm (neg_plus x (row_list mu ! (i - 1)))) (row_list X)"
  let ?dists = "map2 (\<lambda>t d. if t < d then t else d) ?temp dists"
  have sq: "squared_dists X mu (i - 1) = Inr ?temp"
    using i Suc.prems(2) by (simp add: squared_dists_def)
  have len: "length ?dists = rows X" using Suc.prems(4) by (simp add: rows_def)
  consider "element_from_vector RAND_MAX ?dists rng = Inl RngExhausted"
    | ret rng' where "element_from_vector RAND_MAX ?dists rng = Inr (ret, rng')"
        "ret < length ?dists \<or> ret = 0"
    using element_from_vector_cases [of RAND_MAX ?dists rng] by blast
  then show ?case
  proof cases
    case 1
    then show ?thesis using i sq by (subst seed_rest.simps) (simp add: Let_def)
  next
    case 2
    then have ret: "ret < rows X" using len assms(2) by auto
    let ?mu' = "mu\<lparr>row_list := (row_list mu)[i := row_list X ! ret]\<rparr>"
    have asg: "assign_row mu i X ret = Inr ?mu'"
      using i ret Suc.prems(2) by (simp add: assign_row_def)
    have shape: "wf_matrix ?mu' \<and> rows ?mu' = rows mu \<and> cols ?mu' = cols mu"
      by (rule assign_row_shape [OF asg Suc.prems(1) assms(1) Suc.prems(3)])
    have unfold: "seed_rest RAND_MAX X k i mu dists rng
                    = seed_rest RAND_MAX X k (Suc i) ?mu' ?dists rng'"
      using i sq 2(1) asg by (subst seed_rest.simps) (simp add: Let_def)
    have "seed_rest RAND_MAX X k (Suc i) ?mu' ?dists rng' = Inl RngExhausted
         \<or> (\<exists>mu'' rng''. seed_rest RAND_MAX X k (Suc i) ?mu' ?dists rng' = Inr (mu'', rng'')
               \<and> wf_matrix mu'' \<and> rows mu'' = k \<and> cols mu'' = cols X)"
      using Suc.hyps(2) shape Suc.prems(2,3) len by (intro Suc.hyps(1)) simp_all
    then show ?thesis using unfold by simp
  qed
qed

lemma initialize_mu_bounds:
  assumes "wf_matrix X" and "0 < rows X" and "2 \<le> k"
  shows "initialize_mu RAND_MAX X k rng = Inl RngExhausted
         \<or> (\<exists>mu rng'. initialize_mu RAND_MAX X k rng = Inr (mu, rng')
               \<and> wf_matrix mu \<and> rows mu = k \<and> cols mu = cols X)"
proof (cases rng)
  case Nil
  then show ?thesis by (simp add: initialize_mu_def rand_def)
next
  case (Cons r rng1)
  let ?mu0 = "Zero k (cols X)"
  have z: "wf_matrix ?mu0" "rows ?mu0 = k" "cols ?mu0 = cols X"
    by (simp_all add: Zero_def wf_matrix_def rows_def list_all_length)
  let ?randi = "r mod rows X"
  have randi: "?randi < rows X" using assms(2) by simp
  let ?mu1 = "?mu0\<lparr>row_list := (row_list ?mu0)[0 := row_list X ! ?randi]\<rparr>"
  have a1: "assign_row ?mu0 0 X ?randi = Inr ?mu1"
    using randi z(2) assms(3) by (simp add: assign_row_def)
  have s1: "wf_matrix ?mu1 \<and> rows ?mu1 = rows ?mu0 \<and> cols ?mu1 = cols ?mu0"
    using a1 z(1) assms(1) z(3) by (rule assign_row_shape)
  let ?dists = "map (\<lambda>x. squaredNorm (neg_plus x (row_list ?mu1 ! 0))) (row_list X)"
  have sq: "squared_dists X ?mu1 0 = Inr ?dists"
    using s1 z(2) assms(3) by (simp add: squared_dists_def)
  have len: "length ?dists = rows X" by (simp add: rows_def)
  consider "element_from_vector RAND_MAX ?dists rng1 = Inl RngExhausted"
    | ret rng2 where "element_from_vector RAND_MAX ?dists rng1 = Inr (ret, rng2)"
        "ret < length ?dists \<or> ret = 0"
    using element_from_vector_cases [of RAND_MAX ?dists rng1] by blast
  then show ?thesis
  proof cases
    case 1
    then show ?thesis
      using Cons assms(2) a1 sq by (simp add: initialize_mu_def rand_def Let_def)
  next
    case 2
    then have ret: "ret < rows X" using len assms(2) by auto
    let ?mu2 = "?mu1\<lparr>row_list := (row_list ?mu1)[1 := row_list X ! ret]\<rparr>"
    have a2: "assign_row ?mu1 1 X ret = Inr ?mu2"
      using ret s1 z(2) assms(3) by (simp add: assign_row_def)
    have s2: "wf_matrix ?mu2 \<and> rows ?mu2 = rows ?mu1 \<and> cols ?mu2 = cols ?mu1"
      using a2 s1 assms(1) z(3) by (intro assign_row_shape [of ?mu1 1 X ret]) simp_all
    have unfold: "initialize_mu RAND_MAX X k rng = seed_rest RAND_MAX X k 2 ?mu2 ?dists rng2"
      using Cons assms(2) a1 sq 2(1) a2 by (simp add: initialize_mu_def rand_def Let_def)
    have "seed_rest RAND_MAX X k 2 ?mu2 ?dists rng2 = Inl RngExhausted
         \<or> (\<exists>mu' rng'. seed_rest RAND_MAX X k 2 ?mu2 ?dists rng2 = Inr (mu', rng')
               \<and> wf_matrix mu' \<and> rows mu' = k \<and> cols mu' = cols X)"
      using assms(1,2) s2 s1 z len by (intro seed_rest_bounds) simp_all
    then show ?thesis using unfold by simp
  qed
qed

lemma initialize_mu_one_center:
  assumes "0 < rows X" and "k < 2" and "2 \<le> length rng"
  shows "initialize_mu RAND_MAX X k rng = Inl IndexOutOfBounds"
proof -
  obtain r r2 rng2 where rng: "rng = r # r2 # rng2"
    using assms(3) by (cases rng; cases "tl rng") auto
  let ?mu0 = "Zero k (cols X)"
  have rows0: "rows ?mu0 = k" by (simp add: Zero_def rows_def)
  show ?thesis
  proof (cases "k = 0")
    case True
    then have "assign_row ?mu0 0 X (r mod rows X) = Inl IndexOutOfBounds"
      using rows0 by (simp add: assign_row_def)
    then show ?thesis
      using rng assms(1) by (simp add: initialize_mu_def rand_def Let_def)
  next
    case False
    then have k: "k = 1" using assms(2) by simp
    let ?randi = "r mod rows X"
    let ?mu1 = "?mu0\<lparr>row_list := (row_list ?mu0)[0 := row_list X ! ?randi]\<rparr>"
    have a1: "assign_row ?mu0 0 X ?randi = Inr ?mu1"
      using rows0 k assms(1) by (simp add: assign_row_def)
    have rows1: "rows ?mu1 = 1" using rows0 k by (simp add: rows_def)
    let ?dists = "map (\<lambda>x. squaredNorm (neg_plus x (row_list ?mu1 ! 0))) (row_list X)"
    have sq: "squared_dists X ?mu1 0 = Inr ?dists"
      using rows1 by (simp add: squared_dists_def)
    obtain ret where efv: "element_from_vector RAND_MAX ?dists (r2 # rng2) = Inr (ret, rng2)"
      using element_from_vector_index [of RAND_MAX ?dists r2 rng2] by blast
    have a2: "assign_row ?mu1 1 X ret = Inl IndexOutOfBounds"
      using rows1 by (simp add: assign_row_def)
    show ?thesis
      using rng assms(1) a1 sq efv a2 by (simp add: initialize_mu_def rand_def Let_def)
  qed
qed

lemma mapM_failure: "mapM f xs = Inl e \<Longrightarrow> \<exists>x\<in>set xs. f x = Inl e"
  by (induction xs) (auto split: sum.splits)

lemma allocate_clusters_labels:
  assumes "wf_matrix X" and "wf_matrix mu" and "cols X = cols mu" and "0 < rows mu"
  shows "\<exists>inds. allocate_clusters X mu no_zero = Inr inds \<and> length inds = rows X
           \<and> list_all (\<lambda>l. 0 \<le> l \<and> l < int (rows mu)) inds"
proof (cases "length (active_indices mu no_zero) < 2")
  case True
  then have "allocate_clusters X mu no_zero = Inr (replicate (rows X) 0)"
    by (simp add: allocate_clusters_def)
  then show ?thesis using assms(4) by (simp add: list_all_length)
next
  case False
  let ?act = "active_indices mu no_zero"
  have inc: "sorted_wrt (<) ?act" by (rule active_indices_increasing)
  have ne: "?act \<noteq> []" using False by auto
  have bound: "\<forall>a\<in>set ?act. a < rows mu"
    by (simp add: active_indices_candidates is_candidate_def)
  have near: "\<exists>a\<in>set ?act. nearest mu ?act x = Inr (int a)" if "x \<in> set (row_list X)" for x
  proof -
    have "length x = cols mu" using that assms(1,3) by (simp add: wf_matrix_def list_all_iff)
    then have "\<forall>a\<in>set ?act. length (row_list mu ! a) = length x"
      using bound assms(2) by (simp add: wf_matrix_def list_all_length rows_def)
    then show ?thesis using nearest_first_minimum [OF inc ne bound] by blast
  qed
  then have "\<forall>x\<in>set (row_list X). \<exists>y. nearest mu ?act x = Inr y" by blast
  then obtain inds where run: "mapM (nearest mu ?act) (row_list X) = Inr inds"
    using mapM_succeeds by blast
  have res: "allocate_clusters X mu no_zero = Inr inds"
    using run assms(3) False by (simp add: allocate_clusters_def)
  have len: "length inds = rows X"
    and each: "\<forall>j<rows X. nearest mu ?act (row_list X ! j) = Inr (inds ! j)"
    using mapM_nth [OF run] by (simp_all add: rows_def)
  have "0 \<le> inds ! j \<and> inds ! j < int (rows mu)" if j: "j < length inds" for j
  proof -
    have "row_list X ! j \<in> set (row_list X)" using j len by (simp add: rows_def)
    from near [OF this] obtain a where "a \<in> set ?act"
      "nearest mu ?act (row_list X ! j) = Inr (int a)" by blast
    then show ?thesis using each j len bound by auto
  qed
  then have "list_all (\<lambda>l. 0 \<le> l \<and> l < int (rows mu)) inds"
    by (simp add: list_all_length)
  then show ?thesis using res len by blast
qed

lemma those_length: "those xs = Some ys \<Longrightarrow> length ys = length xs"
  by (induction xs arbitrary: ys) (auto split: option.splits)

lemma center_row_cases:
  "center_row reg cn = Inl NonFinite
   \<or> (\<exists>r. center_row reg cn = Inr r \<and> length r = length (fst cn))"
  by (auto simp: center_row_def split: option.splits dest: those_length)

lemma reevaluate_centers_shape:
  assumes "wf_matrix X" and "labels_in_range X inds k"
  shows "reevaluate_centers X inds k reg = Inl NonFinite
         \<or> (\<exists>mu. reevaluate_centers X inds k reg = Inr mu
               \<and> wf_matrix mu \<and> rows mu = k \<and> cols mu = cols X)"
proof -
  let ?D = "cols X"
  have "\<exists>acc' nums'.
           accumulate_rows k (row_list X) inds (row_list (Zero k ?D)) (replicate k 0)
             = Inr (acc', nums')
           \<and> length acc' = k \<and> length nums' = k
           \<and> (\<forall>c<k. length (acc' ! c) = ?D
                 \<and> (\<forall>j<?D. acc' ! c ! j
                        = row_list (Zero k ?D) ! c ! j
                          + column_sum (assigned_rows (row_list X) inds c) j)
                 \<and> nums' ! c
                     = replicate k 0 ! c + int (length (assigned_rows (row_list X) inds c)))"
    using assms
    by (intro accumulate_rows_sums)
       (simp_all add: wf_matrix_def labels_in_range_def rows_def Zero_def list_all_length)
  then obtain acc' nums' where
    run: "accumulate_rows k (row_list X) inds (row_list (Zero k ?D)) (replicate k 0)
             = Inr (acc', nums')"
    and len: "length acc' = k" "length nums' = k"
    and width: "\<forall>c<k. length (acc' ! c) = ?D"
    by blast
  show ?thesis
  proof (cases "mapM (center_row reg) (zip acc' nums')")
    case (Inl e)
    then obtain cn where "center_row reg cn = Inl e" using mapM_failure by blast
    then have "e = NonFinite" using center_row_cases [of reg cn] by auto
    then show ?thesis using run Inl by (simp add: reevaluate_centers_def)
  next
    case (Inr mu_new)
    have l: "length mu_new = k"
      and each: "\<forall>j<k. center_row reg (zip acc' nums' ! j) = Inr (mu_new ! j)"
      using mapM_nth [OF Inr] len by simp_all
    have "length (mu_new ! j) = ?D" if "j < k" for j
      using each that center_row_cases [of reg "zip acc' nums' ! j"] len width by auto
    then have "wf_matrix \<lparr>cols = ?D, row_list = mu_new\<rparr>"
      using l by (simp add: wf_matrix_def list_all_length)
    then show ?thesis using run Inr l by (simp add: reevaluate_centers_def rows_def)
  qed
qed

text \<open>
  What every iteration keeps: the centers are \<open>k\<close> rows of the width of \<open>X\<close> and the labels
  index them, or the value has left the model for a reason other than an access out of
  bounds.
\<close>

lemma iterate_centers_invariant:
  assumes "\<And>m. Pm m \<Longrightarrow> Pv (allocate m)" and "\<And>v r. Pv v \<Longrightarrow> Pm (reevaluate v r)"
  shows "Pm mu \<Longrightarrow> Pv mu_ind \<Longrightarrow>
         Pm (fst (snd (iterate_centers allocate reevaluate reg i mu mu_ind mu_ind_old)))
         \<and> Pv (snd (snd (iterate_centers allocate reevaluate reg i mu mu_ind mu_ind_old)))"
proof (induction "count_limit - i" arbitrary: i mu mu_ind mu_ind_old)
  case 0
  then have "\<not> i < count_limit" by simp
  then show ?case using 0 by (subst (1 2) iterate_centers.simps) simp
next
  case (Suc d)
  then have i: "i < count_limit" by simp
  show ?case
  proof (cases "allocate mu = mu_ind_old \<and> 20 < i")
    case True
    then have "iterate_centers allocate reevaluate reg i mu mu_ind mu_ind_old
                 = (i, mu, allocate mu)"
      using i by (subst iterate_centers.simps) (simp add: Let_def)
    then show ?thesis using Suc.prems(1) assms(1) by simp
  next
    case False
    then have "iterate_centers allocate reevaluate reg i mu mu_ind mu_ind_old
                 = iterate_centers allocate reevaluate reg (Suc i)
                     (reevaluate (allocate mu) (annealed_reg reg i)) (allocate mu) (allocate mu)"
      using i by (subst iterate_centers.simps) (auto simp: Let_def)
    moreover have "d = count_limit - Suc i" using Suc.hyps(2) by simp
    moreover have "Pv (allocate mu)" using Suc.prems(1) by (rule assms(1))
    moreover have "Pm (reevaluate (allocate mu) (annealed_reg reg i))"
      using \<open>Pv (allocate mu)\<close> by (rule assms(2))
    ultimately show ?thesis using Suc.hyps(1) by simp
  qed
qed

lemma cluster_norm_in_bounds:
  assumes "length ind = rows X" and "list_all (\<lambda>l. 0 \<le> l \<and> l < int (rows mu)) ind"
  shows "cluster_norm X mu ind reg \<noteq> Inl IndexOutOfBounds"
proof
  assume oob: "cluster_norm X mu ind reg = Inl IndexOutOfBounds"
  then have "mapM (row_ssq mu) (zip (row_list X) ind) = Inl IndexOutOfBounds"
    using assms(1) by (auto simp: cluster_norm_def split: if_splits sum.splits)
  then obtain xc where xc: "xc \<in> set (zip (row_list X) ind)" "row_ssq mu xc = Inl IndexOutOfBounds"
    using mapM_failure by blast
  then have "snd xc \<in> set ind" by (metis prod.collapse set_zip_rightD)
  then have "0 \<le> snd xc \<and> snd xc < int (rows mu)" using assms(2) by (simp add: list_all_iff)
  then show False using xc(2) by (simp add: row_ssq_def)
qed

text \<open>
  Claim C10: on a well-formed matrix with at least one row, and with the two random
  values the seeding takes, \<^verbatim>\<open>find_centers\<close> runs into an access out of bounds exactly
  when \<open>k < 2\<close>; with \<open>k = 1\<close> it is the seeding that writes row 1 of a center matrix of one
  row. With \<open>k \<ge> 2\<close> every row and label access is in bounds.
\<close>

theorem find_centers_in_bounds:
  assumes "wf_matrix X" and "0 < rows X" and "2 \<le> length rng"
  shows "(find_centers RAND_MAX X k reg no_zero rng = Inl IndexOutOfBounds) = (k < 2)
         \<and> (k = 1 \<longrightarrow> initialize_mu RAND_MAX X k rng = Inl IndexOutOfBounds)"
proof (cases "k < 2")
  case True
  then have "initialize_mu RAND_MAX X k rng = Inl IndexOutOfBounds"
    using assms(2,3) by (intro initialize_mu_one_center)
  then show ?thesis using True by (auto simp: find_centers_def)
next
  case False
  then have k: "2 \<le> k" by simp
  let ?Pm = "\<lambda>m. case m of Inl e \<Rightarrow> e \<noteq> IndexOutOfBounds
                    | Inr mu \<Rightarrow> wf_matrix mu \<and> rows mu = k \<and> cols mu = cols X"
  let ?Pv = "\<lambda>v. case v of Inl e \<Rightarrow> e \<noteq> IndexOutOfBounds
                    | Inr inds \<Rightarrow> labels_in_range X inds k"
  have alloc: "?Pv (allocate_step X no_zero m)" if "?Pm m" for m
  proof (cases m)
    case (Inl e)
    then show ?thesis using that by (simp add: allocate_step_def)
  next
    case (Inr mu)
    then have mu: "wf_matrix mu" "rows mu = k" "cols mu = cols X" using that by simp_all
    then obtain inds where "allocate_clusters X mu no_zero = Inr inds" "length inds = rows X"
      "list_all (\<lambda>l. 0 \<le> l \<and> l < int (rows mu)) inds"
      using allocate_clusters_labels [of X mu no_zero] assms(1) k by auto
    then show ?thesis using Inr mu(2) by (simp add: allocate_step_def labels_in_range_def)
  qed
  have reev: "?Pm (reevaluate_step X k v r)" if "?Pv v" for v r
  proof (cases v)
    case (Inl e)
    then show ?thesis using that by (simp add: reevaluate_step_def)
  next
    case (Inr inds)
    then have "labels_in_range X inds k" using that by simp
    then show ?thesis
      using reevaluate_centers_shape [OF assms(1), of inds k r] Inr
      by (auto simp: reevaluate_step_def)
  qed
  have "find_centers RAND_MAX X k reg no_zero rng \<noteq> Inl IndexOutOfBounds"
  proof (cases "initialize_mu RAND_MAX X k rng")
    case (Inl e)
    then have "e = RngExhausted"
      using initialize_mu_bounds [OF assms(1,2) k, of RAND_MAX rng] by auto
    then show ?thesis using Inl by (simp add: find_centers_def)
  next
    case (Inr seeded)
    obtain mu rng' where seeded: "seeded = (mu, rng')" by (cases seeded)
    have mu: "wf_matrix mu \<and> rows mu = k \<and> cols mu = cols X"
      using initialize_mu_bounds [OF assms(1,2) k, of RAND_MAX rng] Inr seeded by auto
    let ?run = "iterate_centers (allocate_step X no_zero) (reevaluate_step X k) reg 0
                  (Inr mu) (Inr (replicate (rows X) 1)) (Inr (replicate (rows X) 0))"
    have start: "?Pm (Inr mu)" "?Pv (Inr (replicate (rows X) 1))"
      using mu k by (simp_all add: labels_in_range_def list_all_length)
    have inv: "?Pm (fst (snd ?run)) \<and> ?Pv (snd (snd ?run))"
      using alloc reev start
      by (rule iterate_centers_invariant [of ?Pm ?Pv])
    obtain n m v where run: "?run = (n, m, v)" by (cases ?run)
    have m: "?Pm m" and v: "?Pv v" using inv run by simp_all
    show ?thesis
    proof (cases m)
      case (Inl e)
      then show ?thesis using Inr seeded run m by (simp add: find_centers_def)
    next
      case mu': (Inr mu')
      show ?thesis
      proof (cases v)
        case (Inl e)
        then show ?thesis using Inr seeded run mu' v by (simp add: find_centers_def)
      next
        case ind: (Inr mu_ind)
        have "labels_in_range X mu_ind k" using v ind by simp
        then have "cluster_norm X mu' mu_ind reg \<noteq> Inl IndexOutOfBounds"
          using m mu' by (intro cluster_norm_in_bounds) (simp_all add: labels_in_range_def)
        then show ?thesis
          using Inr seeded run mu' ind
          by (auto simp: find_centers_def split: sum.splits)
      qed
    qed
  qed
  then show ?thesis using False by simp
qed

theorem find_centers_in_bounds_witness:
  "wf_matrix two_points \<and> 0 < rows two_points \<and> 2 \<le> length [0, 5 :: nat]
   \<and> find_centers 10 two_points 1 0 True [0, 5] = Inl IndexOutOfBounds
   \<and> initialize_mu 10 two_points 1 [0, 5] = Inl IndexOutOfBounds
   \<and> find_centers 10 two_points 2 0 True [0, 5] \<noteq> Inl IndexOutOfBounds"
proof -
  have h1: "wf_matrix two_points" by (simp add: two_points_def wf_matrix_def)
  have h2: "0 < rows two_points" by (simp add: two_points_def rows_def)
  have h3: "2 \<le> length [0, 5 :: nat]" by simp
  show ?thesis
    using h1 h2 h3 find_centers_in_bounds [OF h1 h2 h3, of 10 1 0 True]
      find_centers_in_bounds [OF h1 h2 h3, of 10 2 0 True]
    by simp
qed



section \<open>The two halves of the results\<close>

text \<open>
  Claim C9: in every result of \<^verbatim>\<open>find_centers\<close> the fields \<^verbatim>\<open>indexes_no_zero\<close>,
  \<^verbatim>\<open>centers_no_zero\<close> and \<^verbatim>\<open>norm_no_zero\<close> equal \<^verbatim>\<open>indexes\<close>, \<^verbatim>\<open>centers\<close> and \<^verbatim>\<open>norm\<close>,
  and in every result of \<^verbatim>\<open>optimize_param\<close> the fields \<^verbatim>\<open>distances_no_zero\<close> and
  \<^verbatim>\<open>found_cluster_no_zero\<close> equal \<^verbatim>\<open>distances\<close> and \<^verbatim>\<open>found_cluster\<close>.
\<close>

theorem no_zero_fields_equal:
  "(find_centers RAND_MAX X k reg no_zero rng = Inr (ret, rng') \<longrightarrow>
      indexes_no_zero ret = indexes ret \<and> centers_no_zero ret = centers ret
      \<and> norm_no_zero ret = norm_value ret)
   \<and> (optimize_param RAND_MAX Xin ks regs iterations bootstrapSamples rngs = Inr (opt, rngs') \<longrightarrow>
      distances_no_zero opt = distances opt
      \<and> found_cluster_no_zero opt = found_cluster opt)"
proof (intro conjI impI)
  assume run: "find_centers RAND_MAX X k reg no_zero rng = Inr (ret, rng')"
  then obtain mu mu_ind n1 n2 where
    norms: "cluster_norm X mu mu_ind reg = Inr n1" "cluster_norm X mu mu_ind reg = Inr n2"
    and ret: "ret = \<lparr>indexes = mu_ind, indexes_no_zero = mu_ind,
                      centers = mu, centers_no_zero = mu,
                      norm_value = n1, norm_no_zero = n2\<rparr>"
    by (auto simp: find_centers_def Let_def split: sum.splits prod.splits)
  have "n1 = n2" using norms by simp
  then show "indexes_no_zero ret = indexes ret" "centers_no_zero ret = centers ret"
    "norm_no_zero ret = norm_value ret"
    using ret by simp_all
next
  assume run: "optimize_param RAND_MAX Xin ks regs iterations bootstrapSamples rngs = Inr (opt, rngs')"
  then obtain acc_d acc_f d1 d2 f1 f2 collected where
    quot: "divide_by acc_d (real iterations) = Inr d1"
      "divide_by acc_d (real iterations) = Inr d2"
      "divide_by acc_f (real ((iterations * 2) mod 2 ^ 32)) = Inr f1"
      "divide_by acc_f (real ((iterations * 2) mod 2 ^ 32)) = Inr f2"
    and opt: "opt = \<lparr>found_cluster = f1, found_cluster_no_zero = f2,
                      distances = d1, distances_no_zero = d2, centers_list = collected\<rparr>"
    by (auto simp: optimize_param_def ebind_def Let_def split: sum.splits prod.splits)
  have "d1 = d2" "f1 = f2" using quot by simp_all
  then show "distances_no_zero opt = distances opt"
    "found_cluster_no_zero opt = found_cluster opt"
    using opt by simp_all
qed

text \<open>
  A complete run: the search over the single grid cell \<open>k = 2\<close>, \<open>reg = 0\<close> on the points
  1, 3 and 3, with one repetition and bootstrap samples of two rows. Both samples are the
  points 1 and 3, both clusterings stop at iteration 21 with these two points as centers,
  and the two labellings of the three points agree.
\<close>

lemma two_points_loop:
  "iterate_centers (allocate_step two_points no_zero) (reevaluate_step two_points 2) 0 0
     (Inr two_points) mu_ind old
   = (21, Inr two_points, Inr [0, 1])"
proof -
  let ?A = "allocate_step two_points no_zero"
  let ?R = "reevaluate_step two_points 2"
  let ?conv = "converged_at ?A ?R 0 (Inr two_points) old"
  let ?S = "state_before ?A ?R 0 (Inr two_points) old"
  have "\<exists>n. 0 \<le> n \<and> n \<le> count_limit \<and> (\<forall>j<n. \<not> ?conv j) \<and> (n < count_limit \<longrightarrow> ?conv n)
          \<and> iterate_centers ?A ?R 0 0 (Inr two_points) mu_ind old
               = (n, fst (?S n),
                  if n < count_limit then ?A (fst (?S n))
                  else if n = 0 then mu_ind else snd (?S n))"
    by (intro iterate_centers_from) simp_all
  then obtain n where n: "n \<le> count_limit" "\<forall>j<n. \<not> ?conv j" "n < count_limit \<longrightarrow> ?conv n"
    and run: "iterate_centers ?A ?R 0 0 (Inr two_points) mu_ind old
               = (n, fst (?S n),
                  if n < count_limit then ?A (fst (?S n))
                  else if n = 0 then mu_ind else snd (?S n))"
    by blast
  have c21: "?conv 21" by (simp add: two_points_converged)
  then have "\<not> 21 < n" using n(2) by blast
  then have below: "n < count_limit" by (simp add: count_limit_def)
  then have "20 < n" using n(3) by (simp add: two_points_converged)
  then have "n = 21" using \<open>\<not> 21 < n\<close> by simp
  moreover have "?S 21 = (Inr two_points, Inr [0, 1])"
    using two_points_state [of no_zero old 20] by simp
  ultimately show ?thesis
    using run below by (simp add: two_points_allocate)
qed

lemma two_points_seeds: "initialize_mu 10 two_points 2 (0 # 5 # rng) = Inr (two_points, rng)"
proof -
  have "seed_rest 10 two_points 2 2 mu dists rng = Inr (mu, rng)" for mu dists
    by (subst seed_rest.simps) simp
  then show ?thesis
    by (simp add: initialize_mu_def rand_def two_points_def Zero_def rows_def assign_row_def
        squared_dists_def squaredNorm_def neg_plus_def element_from_vector_def numeral_2_eq_2)
qed

lemma two_points_norm: "cluster_norm two_points two_points [0, 1] 0 = Inr 0"
  by (simp add: cluster_norm_def two_points_def rows_def row_ssq_def squaredNorm_def)

lemma two_points_find_centers:
  "find_centers 10 two_points 2 0 no_zero (0 # 5 # rng)
   = Inr (\<lparr>indexes = [0, 1], indexes_no_zero = [0, 1],
           centers = two_points, centers_no_zero = two_points,
           norm_value = 0, norm_no_zero = 0\<rparr>, rng)"
  by (simp add: find_centers_def two_points_seeds two_points_loop two_points_norm)

lemma three_points_bootstrap:
  "bootstrap_data three_points 2 (0 # 4 # rng) = Inr (two_points, rng)"
  by (simp add: bootstrap_data_def three_points_def two_points_def rows_def)

lemma three_points_allocate:
  "allocate_clusters three_points two_points no_zero = Inr [0, 1, 1]"
  by (simp add: three_points_def two_points_def allocate_clusters_def active_indices_def
      rows_def isZero_def nearest_def distances_row_def minCoeff_def rowwise_norm_def
      squaredNorm_def neg_plus_def upt_rec)

lemma three_points_distance:
  "\<exists>rng'. cluster_distance [0, 1, 1] [0, 1, 1] 2 (concat (replicate 10000 [0, 4])) = Inr (1, rng')"
proof -
  let ?c = "[0, 1, 1 :: int]"
  let ?rng = "concat (replicate 10000 [0, 4 :: nat])"
  have h1: "2 \<le> length ?c" by simp
  have h2: "list_all (\<lambda>l. 0 \<le> l \<and> l < int 2) ?c" by simp
  have h3: "indice_num \<le> usable_pairs (length ?c) ?rng"
    by (simp add: usable_pairs_def pairs_replicate indice_num_def)
  obtain population1 population2 rng' where
    pop: "populate 2 (real (length ?c)) ?c ?c (replicate 2 0) (replicate 2 0)
            = Inr (population1, population2)"
    and dist: "cluster_distance ?c ?c 2 ?rng
               = (if 1 - chance_level (real (length ?c)) population1 population2 = 0
                  then Inl NonFinite else Inr (1, rng'))"
    using cluster_distance_same [OF h1 h2 h3] by blast
  have computed: "populate 2 (real (length ?c)) ?c ?c (replicate 2 0) (replicate 2 0)
          = Inr ([1 / 3, 2 / 3], [1 / 3, 2 / 3])"
    by (simp add: numeral_2_eq_2)
  from pop [unfolded computed]
  have "population1 = [1 / 3, 2 / 3]" "population2 = [1 / 3, 2 / 3]"
    by blast+
  then have "chance_level (real (length ?c)) population1 population2 = 5 / 9"
    by (simp add: chance_level_def same_rate_def differ_rate_def)
  then have "cluster_distance ?c ?c 2 ?rng = Inr (1, rng')"
    using dist by simp
  then show ?thesis by blast
qed

lemma two_used_clusters: "n_used_clusters 2 [0, 1] = Inr 2"
  by (simp add: n_used_clusters_def numeral_2_eq_2)

lemma three_points_search:
  "\<exists>rng'. optimize_param 10 three_points [2] [0] 1 2
            (0 # 4 # 0 # 4 # 0 # 5 # 0 # 5 # concat (replicate 10000 [0, 4]))
          = Inr (\<lparr>found_cluster = \<lparr>cols = 1, row_list = [[2]]\<rparr>,
                  found_cluster_no_zero = \<lparr>cols = 1, row_list = [[2]]\<rparr>,
                  distances = \<lparr>cols = 1, row_list = [[1]]\<rparr>,
                  distances_no_zero = \<lparr>cols = 1, row_list = [[1]]\<rparr>,
                  centers_list = [[two_points, two_points, two_points, two_points]]\<rparr>, rng')"
proof -
  obtain rng' where dist:
    "cluster_distance [0, 1, 1] [0, 1, 1] 2 (concat (replicate 10000 [0, 4])) = Inr (1, rng')"
    using three_points_distance by blast
  have cell: "grid_cell 10 three_points [2] [0] 2 (0, 0)
                (Zero (Suc 0) (Suc 0), Zero (Suc 0) (Suc 0), [],
                 0 # 4 # 0 # 4 # 0 # 5 # 0 # 5 # concat (replicate 10000 [0, 4]))
              = Inr (\<lparr>cols = 1, row_list = [[1]]\<rparr>, \<lparr>cols = 1, row_list = [[4]]\<rparr>,
                     [[two_points, two_points, two_points, two_points]], rng')"
    by (simp add: grid_cell_def ebind_def three_points_bootstrap two_points_find_centers
        three_points_allocate dist two_used_clusters add_coeff_def Zero_def rows_def)
  have cells: "grid_cells (Suc 0) (Suc 0) (Suc 0) = [(0, 0)]" by (simp add: grid_cells_def)
  have "optimize_param 10 three_points [2] [0] 1 2
            (0 # 4 # 0 # 4 # 0 # 5 # 0 # 5 # concat (replicate 10000 [0, 4]))
          = Inr (\<lparr>found_cluster = \<lparr>cols = 1, row_list = [[2]]\<rparr>,
                  found_cluster_no_zero = \<lparr>cols = 1, row_list = [[2]]\<rparr>,
                  distances = \<lparr>cols = 1, row_list = [[1]]\<rparr>,
                  distances_no_zero = \<lparr>cols = 1, row_list = [[1]]\<rparr>,
                  centers_list = [[two_points, two_points, two_points, two_points]]\<rparr>, rng')"
    by (simp add: optimize_param_def cells cell ebind_def divide_by_def)
  then show ?thesis by blast
qed

theorem no_zero_fields_equal_witness:
  "\<exists>ret rng' opt rngs'.
     find_centers 10 two_points 2 0 True [0, 5] = Inr (ret, rng')
     \<and> indexes ret = [0, 1] \<and> centers ret = two_points \<and> norm_value ret = 0
     \<and> indexes_no_zero ret = indexes ret \<and> centers_no_zero ret = centers ret
     \<and> norm_no_zero ret = norm_value ret
     \<and> optimize_param 10 three_points [2] [0] 1 2
          (0 # 4 # 0 # 4 # 0 # 5 # 0 # 5 # concat (replicate 10000 [0, 4])) = Inr (opt, rngs')
     \<and> distances opt = \<lparr>cols = 1, row_list = [[1]]\<rparr>
     \<and> found_cluster opt = \<lparr>cols = 1, row_list = [[2]]\<rparr>
     \<and> distances_no_zero opt = distances opt
     \<and> found_cluster_no_zero opt = found_cluster opt"
proof -
  let ?ret = "\<lparr>indexes = [0, 1], indexes_no_zero = [0, 1],
                centers = two_points, centers_no_zero = two_points,
                norm_value = 0, norm_no_zero = 0\<rparr>"
  let ?rng = "0 # 4 # 0 # 4 # 0 # 5 # 0 # 5 # concat (replicate 10000 [0, 4 :: nat])"
  have fc: "find_centers 10 two_points 2 0 True [0, 5] = Inr (?ret, [])"
    by (rule two_points_find_centers)
  obtain opt rngs' where
    op: "optimize_param 10 three_points [2] [0] 1 2 ?rng = Inr (opt, rngs')"
    and vals: "distances opt = \<lparr>cols = 1, row_list = [[1]]\<rparr>"
      "found_cluster opt = \<lparr>cols = 1, row_list = [[2]]\<rparr>"
    using three_points_search by force
  have "indexes_no_zero ?ret = indexes ?ret \<and> centers_no_zero ?ret = centers ?ret
        \<and> norm_no_zero ?ret = norm_value ?ret
        \<and> distances_no_zero opt = distances opt
        \<and> found_cluster_no_zero opt = found_cluster opt"
    using no_zero_fields_equal
      [where RAND_MAX = 10 and X = two_points and k = 2 and reg = 0 and no_zero = True
         and rng = "[0, 5]" and ret = ?ret and rng' = "[]" and Xin = three_points
         and ks = "[2]" and regs = "[0]" and iterations = 1 and bootstrapSamples = 2
         and rngs = ?rng and opt = opt and rngs' = rngs']
      fc op by blast
  then show ?thesis using fc op vals by auto
qed


end
